theory Spec2Isabelle
  imports Complex_Main "HOL-Library.Sublist"
begin

section \<open>JavaScript values used by the viewer\<close>

text \<open>
  The viewer (\<^verbatim>\<open>src/app.js\<close>) computes with JavaScript numbers. Page numbers, cursor
  positions and floored pixel sizes are integers and are modelled by \<^typ>\<open>int\<close>; the
  aspect ratio and the unfloored page sizes are fractions and are modelled by exact
  rationals (\<^typ>\<open>rat\<close>). The inputs at which the page size is evaluated below
  are values that IEEE doubles represent exactly.
\<close>

subsection \<open>Numbers and strings\<close>

definition digit_char :: "nat \<Rightarrow> char" where
  "digit_char d = char_of (48 + d)"

fun nat_digits :: "nat \<Rightarrow> string" where
  "nat_digits n = (if n < 10 then [digit_char n] else nat_digits (n div 10) @ [digit_char (n mod 10)])"

declare nat_digits.simps [simp del]

text \<open>
  \<^verbatim>\<open>String(n)\<close> (and the template literal \<^verbatim>\<open>`${n}`\<close>) for an integer \<open>n\<close> below
  \<open>10^21\<close> in absolute value: the decimal digits, with a leading minus sign for a
  negative number.
\<close>

definition number_to_string :: "int \<Rightarrow> string" where
  "number_to_string n = (if n < 0 then CHR ''-'' # nat_digits (nat (- n)) else nat_digits (nat n))"

definition is_white_space :: "char \<Rightarrow> bool" where
  "is_white_space c = (c \<in> set [CHR '' '', CHR 0x09, CHR 0x0A, CHR 0x0B, CHR 0x0C, CHR 0x0D])"

text \<open>The value of a character as a digit of the given radix (10 or 16), if it is one.\<close>

definition digit_value :: "nat \<Rightarrow> char \<Rightarrow> nat option" where
  "digit_value radix c =
     (let k = of_char c :: nat;
          v = (if 48 \<le> k \<and> k \<le> 57 then Some (k - 48)
               else if 97 \<le> k \<and> k \<le> 122 then Some (k - 87)
               else if 65 \<le> k \<and> k \<le> 90 then Some (k - 55)
               else None)
      in case v of None \<Rightarrow> None | Some d \<Rightarrow> if d < radix then Some d else None)"

definition digits_value :: "nat \<Rightarrow> string \<Rightarrow> nat" where
  "digits_value radix ds =
     foldl (\<lambda>acc c. acc * radix + (case digit_value radix c of Some d \<Rightarrow> d | None \<Rightarrow> 0)) 0 ds"

text \<open>
  \<^verbatim>\<open>parseInt(s)\<close> with no radix argument (ECMAScript, \<^emph>\<open>parseInt\<close>): leading white
  space is skipped, one sign is read, a prefix \<^verbatim>\<open>0x\<close>/\<^verbatim>\<open>0X\<close> selects radix 16, and the
  longest run of digits of the radix is the number. \<open>None\<close> is \<^verbatim>\<open>NaN\<close> (no digit).
  White space is the white space of ASCII, and the number is exact (a double is, up to
  \<open>2^53\<close>).
\<close>

definition parseInt :: "string \<Rightarrow> int option" where
  "parseInt inputString =
     (let S = dropWhile is_white_space inputString;
          negative = (S \<noteq> [] \<and> hd S = CHR ''-'');
          S1 = (if S \<noteq> [] \<and> (hd S = CHR ''+'' \<or> hd S = CHR ''-'') then tl S else S);
          hex = (take 2 S1 = ''0x'' \<or> take 2 S1 = ''0X'');
          R = (if hex then 16 else 10);
          S2 = (if hex then drop 2 S1 else S1);
          Z = takeWhile (\<lambda>c. digit_value R c \<noteq> None) S2
      in if Z = [] then None
         else Some ((if negative then - 1 else 1) * int (digits_value R Z)))"

text \<open>
  \<^verbatim>\<open>x || 1\<close> for the result of \<^verbatim>\<open>parseInt\<close>: \<^verbatim>\<open>NaN\<close> and zero (of either sign) are
  falsy.
\<close>

definition or_one :: "int option \<Rightarrow> int" where
  "or_one v = (case v of None \<Rightarrow> 1 | Some n \<Rightarrow> if n = 0 then 1 else n)"

text \<open>\<^verbatim>\<open>hash.split('=')[1]\<close> for a hash that starts with \<^verbatim>\<open>#page=\<close>.\<close>

definition split_eq_1 :: "string \<Rightarrow> string" where
  "split_eq_1 hash = takeWhile (\<lambda>c. c \<noteq> CHR ''='') (tl (dropWhile (\<lambda>c. c \<noteq> CHR ''='') hash))"

text \<open>The remainder operator \<^verbatim>\<open>a % b\<close> on integers: the sign follows the dividend.\<close>

definition js_rem :: "int \<Rightarrow> int \<Rightarrow> int" where
  "js_rem a b = sgn a * (\<bar>a\<bar> mod \<bar>b\<bar>)"

text \<open>\<^verbatim>\<open>xs[i]\<close>: \<open>None\<close> is \<^verbatim>\<open>undefined\<close>, the value of an index outside the array.\<close>

definition js_index :: "'a list \<Rightarrow> int \<Rightarrow> 'a option" where
  "js_index xs i = (if 0 \<le> i \<and> i < int (length xs) then Some (xs ! nat i) else None)"

section \<open>Data model\<close>

subsection \<open>The document decoder (pdf.js), an external collaborator\<close>

datatype js_error = GetPageError | RenderError | TextContentError | NullDocument

text \<open>
  A page proxy answers \<^verbatim>\<open>getViewport({scale: 1})\<close> with its native size; its
  \<^verbatim>\<open>render(...).promise\<close> resolves (\<open>None\<close>) or rejects, and \<^verbatim>\<open>getTextContent()\<close>
  gives the strings of the text items or rejects.
\<close>

record page_proxy =
  viewportWidth :: rat
  viewportHeight :: rat
  renderOutcome :: "js_error option"
  textContent :: "js_error + string list"

record pdf_document =
  numPages :: int
  getPage :: "int \<Rightarrow> js_error + page_proxy"

text \<open>Every call the viewer makes to the decoder is recorded, in order.\<close>

datatype decoder_call = GetPage int | Render int | GetTextContent int

subsection \<open>Canvases, the page-flip engine and the page\<close>

text \<open>
  A canvas holds the bitmap of a page or the label of the error page. Its sizes are the
  numbers the code assigns to \<^verbatim>\<open>canvas.width\<close> and \<^verbatim>\<open>canvas.height\<close>, and the size of
  its style (absent on the error page).
\<close>

datatype canvas_content = PageBitmap int | ErrorLabel

record canvas =
  content :: canvas_content
  canvasWidth :: rat
  canvasHeight :: rat
  styleSize :: "(rat \<times> rat) option"

text \<open>
  The engine (StPageFlip) is external: the model keeps the \<^verbatim>\<open>startPage\<close> it was built
  with and the \<^verbatim>\<open>flip(n)\<close> calls it received. What \<^verbatim>\<open>getCurrentPageIndex()\<close> answers
  is an input of the handlers that ask for it.
\<close>

record page_flip =
  startPage :: int
  flipCalls :: "int list"

datatype display = DisplayDefault | DisplayBlock | DisplayNone

record underneath_el =
  displayStyle :: display
  preview :: "canvas option"

datatype toast = MobileDoubleUnsupported | LoadError

datatype search_text = Blank | Position int int | NoResults

datatype flip_state = Flipping | UserFold | FoldCorner | Read

record window =
  innerWidth :: int
  innerHeight :: int
  viewerContainer :: "(int \<times> int) option"

subsection \<open>The application state\<close>

text \<open>
  The viewer runs on one thread. An \<^verbatim>\<open>async\<close> function is modelled as run from its call
  to its end, the way it runs when nothing else is scheduled between its \<^verbatim>\<open>await\<close>s;
  pages rendered together by \<^verbatim>\<open>Promise.all\<close> are rendered one after the other, in page
  order.
\<close>

text \<open>
  The fields of the global \<^verbatim>\<open>state\<close> object that the modelled functions read or write,
  followed by the parts of the page they touch: the \<^verbatim>\<open>.page\<close> elements (each holding a
  spinner, \<open>None\<close>, or a canvas), the text layers, the \<^verbatim>\<open>#page-underneath\<close> element, the
  toasts shown, the page input, the search indicator and the location hash.
  \<open>decoderLog\<close> and \<open>startedInits\<close> record calls: to the decoder, and to
  \<^verbatim>\<open>initFlipbook()\<close> from a handler that does not await it.
\<close>

record app_state =
  pdfDoc :: "pdf_document option"
  pageFlip :: "page_flip option"
  currentPage :: int
  totalPages :: int
  isDoublePageMode :: bool
  isMobile :: bool
  zoom :: rat
  pageCache :: "string \<rightharpoonup> canvas"
  searchResults :: "int list"
  currentSearchIndex :: int
  currentSearchQuery :: string
  pageTexts :: "int \<rightharpoonup> string"
  basePageWidth :: int
  basePageHeight :: int
  pageElements :: "int \<rightharpoonup> canvas option"
  textLayers :: "int \<rightharpoonup> string list"
  underneathEl :: "underneath_el option"
  toasts :: "toast list"
  pageInputValue :: int
  searchResultsText :: search_text
  locationHash :: string
  decoderLog :: "decoder_call list"
  startedInits :: nat

definition initial_state :: app_state where
  "initial_state =
     \<lparr>pdfDoc = None, pageFlip = None, currentPage = 1, totalPages = 0,
      isDoublePageMode = True, isMobile = False, zoom = 1, pageCache = Map.empty,
      searchResults = [], currentSearchIndex = - 1, currentSearchQuery = [],
      pageTexts = Map.empty, basePageWidth = 400, basePageHeight = 560,
      pageElements = Map.empty, textLayers = Map.empty, underneathEl = None,
      toasts = [], pageInputValue = 1, searchResultsText = Blank, locationHash = [],
      decoderLog = [], startedInits = 0\<rparr>"

definition MOBILE_BREAKPOINT :: int where
  "MOBILE_BREAKPOINT = 768"

definition showToast :: "toast \<Rightarrow> app_state \<Rightarrow> app_state" where
  "showToast message s = s\<lparr>toasts := toasts s @ [message]\<rparr>"

definition logCall :: "decoder_call \<Rightarrow> app_state \<Rightarrow> app_state" where
  "logCall c s = s\<lparr>decoderLog := decoderLog s @ [c]\<rparr>"

section \<open>Initialization\<close>

text \<open>
  \<^verbatim>\<open>checkMobileMode\<close> returns whether the device class changed, with the new state.
\<close>

definition checkMobileMode :: "int \<Rightarrow> app_state \<Rightarrow> bool \<times> app_state" where
  "checkMobileMode windowInnerWidth s =
     (let wasMobile = isMobile s;
          s1 = s\<lparr>isMobile := (windowInnerWidth \<le> MOBILE_BREAKPOINT)\<rparr>;
          s2 = (if isMobile s1 \<and> isDoublePageMode s1 then s1\<lparr>isDoublePageMode := False\<rparr> else s1)
      in (wasMobile \<noteq> isMobile s2, s2))"

definition checkUrlForPdf :: "string \<Rightarrow> app_state \<Rightarrow> app_state" where
  "checkUrlForPdf hash s =
     (if take 6 hash = ''#page='' then s\<lparr>currentPage := or_one (parseInt (split_eq_1 hash))\<rparr>
      else s)"

definition updateUrl :: "app_state \<Rightarrow> app_state" where
  "updateUrl s = s\<lparr>locationHash := ''#page='' @ number_to_string (currentPage s)\<rparr>"

section \<open>PDF loading and rendering\<close>

definition cacheKey :: "int \<Rightarrow> int \<Rightarrow> int \<Rightarrow> string" where
  "cacheKey pageNum width height =
     number_to_string pageNum @ ''-'' @ number_to_string width @ ''-'' @ number_to_string height"

definition createErrorPage :: "int \<Rightarrow> int \<Rightarrow> canvas" where
  "createErrorPage width height =
     \<lparr>content = ErrorLabel, canvasWidth = of_int width, canvasHeight = of_int height,
      styleSize = None\<rparr>"

text \<open>
  The body of the \<^verbatim>\<open>try\<close> block of \<^verbatim>\<open>renderPage\<close>, entered after a cache miss. An
  exception is a value \<open>Inl\<close>; the state comes back in either case, since calls already
  made to the decoder are not undone by the exception. \<^verbatim>\<open>state.pdfDoc.getPage\<close> on a
  null document throws as well. The canvas is drawn at twice the fit scale and its
  style size is the fit-scaled native size. The native sizes of a pdf.js viewport are
  positive; nothing proved below depends on the sizes of a drawn canvas.
\<close>

definition renderPage_try :: "int \<Rightarrow> int \<Rightarrow> int \<Rightarrow> app_state \<Rightarrow> (js_error + canvas) \<times> app_state" where
  "renderPage_try pageNum width height s =
     (case pdfDoc s of
        None \<Rightarrow> (Inl NullDocument, s)
      | Some doc \<Rightarrow>
          (let s1 = logCall (GetPage pageNum) s in
           case getPage doc pageNum of
             Inl e \<Rightarrow> (Inl e, s1)
           | Inr page \<Rightarrow>
               (let fitScale = min (of_int width / viewportWidth page) (of_int height / viewportHeight page);
                    renderScale = 2 * fitScale;
                    s2 = logCall (Render pageNum) s1
                in case renderOutcome page of
                     Some e \<Rightarrow> (Inl e, s2)
                   | None \<Rightarrow>
                       (let cv = \<lparr>content = PageBitmap pageNum,
                                  canvasWidth = viewportWidth page * renderScale,
                                  canvasHeight = viewportHeight page * renderScale,
                                  styleSize = Some (viewportWidth page * fitScale, viewportHeight page * fitScale)\<rparr>
                        in (Inr cv, s2\<lparr>pageCache := (pageCache s2)(cacheKey pageNum width height \<mapsto> cv)\<rparr>)))))"

definition renderPage :: "int \<Rightarrow> int \<Rightarrow> int \<Rightarrow> app_state \<Rightarrow> canvas \<times> app_state" where
  "renderPage pageNum width height s =
     (case pageCache s (cacheKey pageNum width height) of
        Some cv \<Rightarrow> (cv, s)
      | None \<Rightarrow>
          (case renderPage_try pageNum width height s of
             (Inr cv, s') \<Rightarrow> (cv, s')
           | (Inl e, s') \<Rightarrow> (createErrorPage width height, s')))"

definition toLowerCase :: "string \<Rightarrow> string" where
  "toLowerCase str =
     map (\<lambda>c. let k = of_char c :: nat in if 65 \<le> k \<and> k \<le> 90 then char_of (k + 32) else c) str"

fun join_space :: "string list \<Rightarrow> string" where
  "join_space [] = []"
| "join_space [x] = x"
| "join_space (x # y # ys) = x @ '' '' @ join_space (y # ys)"

text \<open>One iteration of the loop of \<^verbatim>\<open>extractAllPageTexts\<close>, with its own try and catch.\<close>

definition extractPageText_try :: "int \<Rightarrow> app_state \<Rightarrow> (js_error + string) \<times> app_state" where
  "extractPageText_try i s =
     (case pdfDoc s of
        None \<Rightarrow> (Inl NullDocument, s)
      | Some doc \<Rightarrow>
          (let s1 = logCall (GetPage i) s in
           case getPage doc i of
             Inl e \<Rightarrow> (Inl e, s1)
           | Inr page \<Rightarrow>
               (let s2 = logCall (GetTextContent i) s1 in
                case textContent page of
                  Inl e \<Rightarrow> (Inl e, s2)
                | Inr items \<Rightarrow> (Inr (toLowerCase (join_space items)), s2))))"

definition extractPageText :: "int \<Rightarrow> app_state \<Rightarrow> app_state" where
  "extractPageText i s =
     (case extractPageText_try i s of
        (Inr text, s') \<Rightarrow> s'\<lparr>pageTexts := (pageTexts s')(i \<mapsto> text)\<rparr>
      | (Inl e, s') \<Rightarrow> s'\<lparr>pageTexts := (pageTexts s')(i \<mapsto> [])\<rparr>)"

definition extractAllPageTexts :: "app_state \<Rightarrow> app_state" where
  "extractAllPageTexts s = fold extractPageText [1..totalPages s] s"

section \<open>Flipbook initialization\<close>

text \<open>
  The page size computed by \<^verbatim>\<open>initFlipbook\<close> from the available space, the aspect
  ratio of the first page and the view mode. The height is divided by the aspect ratio
  only where the fitted width exceeds the positive available width, which a ratio of
  zero or less never does.
\<close>

definition pageDimensions :: "int \<Rightarrow> int \<Rightarrow> rat \<Rightarrow> bool \<Rightarrow> int \<times> int" where
  "pageDimensions availableWidth availableHeight aspectRatio doubleMode =
     (let maxHeight = max availableHeight 400;
          maxWidth = max availableWidth 300;
          fitHeight = (of_int maxHeight :: rat);
          fitWidth = fitHeight * aspectRatio;
          (pageWidth, pageHeight) =
            (if doubleMode then
               (if fitWidth * 2 > of_int maxWidth
                then (of_int maxWidth / 2, (of_int maxWidth / 2) / aspectRatio)
                else (fitWidth, fitHeight))
             else
               (if fitWidth > of_int maxWidth
                then (of_int maxWidth, of_int maxWidth / aspectRatio)
                else (fitWidth, fitHeight)))
      in (\<lfloor>pageWidth\<rfloor>, \<lfloor>pageHeight\<rfloor>))"

text \<open>The aspect ratio of the first page, or the fallback \<open>0.714\<close>.\<close>

definition firstPageAspectRatio :: "app_state \<Rightarrow> rat \<times> app_state" where
  "firstPageAspectRatio s =
     (case pdfDoc s of
        None \<Rightarrow> (357 / 500, s)
      | Some doc \<Rightarrow>
          (let s1 = logCall (GetPage 1) s in
           case getPage doc 1 of
             Inl e \<Rightarrow> (357 / 500, s1)
           | Inr page \<Rightarrow> (viewportWidth page / viewportHeight page, s1)))"

definition addTextLayer :: "int \<Rightarrow> app_state \<Rightarrow> app_state" where
  "addTextLayer pageNum s =
     (case pdfDoc s of
        None \<Rightarrow> s
      | Some doc \<Rightarrow>
          (let s1 = logCall (GetPage pageNum) s in
           case getPage doc pageNum of
             Inl e \<Rightarrow> s1
           | Inr page \<Rightarrow>
               (let s2 = logCall (GetTextContent pageNum) s1 in
                case textContent page of
                  Inl e \<Rightarrow> s2
                | Inr items \<Rightarrow> s2\<lparr>textLayers := (textLayers s2)(pageNum \<mapsto> items)\<rparr>)))"

text \<open>
  \<^verbatim>\<open>renderPageContent\<close> returns at once when the page has no element or its content
  already holds a canvas.
\<close>

definition renderPageContent :: "int \<Rightarrow> app_state \<Rightarrow> app_state" where
  "renderPageContent pageNum s =
     (case pageElements s pageNum of
        None \<Rightarrow> s
      | Some (Some cv) \<Rightarrow> s
      | Some None \<Rightarrow>
          (let (cv, s1) = renderPage pageNum (basePageWidth s) (basePageHeight s) s;
               s2 = s1\<lparr>pageElements := (pageElements s1)(pageNum \<mapsto> Some cv)\<rparr>
           in addTextLayer pageNum s2))"

text \<open>A JavaScript \<^verbatim>\<open>Set\<close> keeps its elements in the order of their first insertion.\<close>

definition set_add :: "int \<Rightarrow> int list \<Rightarrow> int list" where
  "set_add x xs = (if x \<in> set xs then xs else xs @ [x])"

definition pagesToRender :: "int \<Rightarrow> app_state \<Rightarrow> int list" where
  "pagesToRender currentIndex s =
     (let current = [currentIndex + 1];
          spread = (if isDoublePageMode s
                    then (if js_rem (currentIndex + 1) 2 = 0 then set_add (currentIndex + 2) current
                          else set_add currentIndex current)
                    else current);
          preloadRange = (if isDoublePageMode s then 4 else 2);
          nearby = filter (\<lambda>pageNum. 1 \<le> pageNum \<and> pageNum \<le> totalPages s)
                     (map (\<lambda>i. currentIndex + 1 + i) [- 2..preloadRange])
      in fold set_add nearby spread)"

definition renderVisiblePages :: "int \<Rightarrow> app_state \<Rightarrow> app_state" where
  "renderVisiblePages currentIndex s = fold renderPageContent (pagesToRender currentIndex s) s"

definition preRenderAllPages :: "app_state \<Rightarrow> app_state" where
  "preRenderAllPages s = fold renderPageContent [1..totalPages s] s"

text \<open>
  \<^verbatim>\<open>initFlipbook\<close>, run to its end: \<open>currentIndex\<close> is what the new engine answers to
  \<^verbatim>\<open>getCurrentPageIndex()\<close> when the visible pages are rendered.
\<close>

definition initFlipbook :: "window \<Rightarrow> int \<Rightarrow> app_state \<Rightarrow> app_state" where
  "initFlipbook win currentIndex s =
     (let toolbarHeight = 72;
          availableHeight = (case viewerContainer win of Some (cw, ch) \<Rightarrow> ch | None \<Rightarrow> innerHeight win) - toolbarHeight;
          availableWidth = (case viewerContainer win of Some (cw, ch) \<Rightarrow> cw | None \<Rightarrow> innerWidth win);
          (aspectRatio, s1) = firstPageAspectRatio s;
          (pageWidth, pageHeight) = pageDimensions availableWidth availableHeight aspectRatio (isDoublePageMode s1);
          s2 = s1\<lparr>basePageWidth := pageWidth, basePageHeight := pageHeight,
                  pageElements := (\<lambda>i. if 1 \<le> i \<and> i \<le> totalPages s1 then Some None else None),
                  textLayers := Map.empty,
                  pageFlip := Some \<lparr>startPage = currentPage s1 - 1, flipCalls = []\<rparr>\<rparr>
      in renderVisiblePages currentIndex s2)"

text \<open>
  A handler that calls \<^verbatim>\<open>initFlipbook()\<close> without awaiting it, with a document loaded:
  the call runs up to its first \<^verbatim>\<open>await\<close> (\<^verbatim>\<open>getPage(1)\<close>), which writes nothing of the
  state, and the rest runs later as \<open>initFlipbook\<close> above.
\<close>

definition startInitFlipbook :: "app_state \<Rightarrow> app_state" where
  "startInitFlipbook s = s\<lparr>startedInits := Suc (startedInits s)\<rparr>"

subsection \<open>The page underneath\<close>

definition nextRightPageNum :: "int \<Rightarrow> int" where
  "nextRightPageNum currentIndex = currentIndex * 2 + 3"

definition showPageUnderneath :: "int \<Rightarrow> app_state \<Rightarrow> app_state" where
  "showPageUnderneath currentIndex s =
     (if nextRightPageNum currentIndex > totalPages s then s
      else
        (let el = (case underneathEl s of
                     None \<Rightarrow> \<lparr>displayStyle = DisplayDefault, preview = None\<rparr>
                   | Some e \<Rightarrow> e);
             el' = (case pageElements s (nextRightPageNum currentIndex) of
                      Some (Some cv) \<Rightarrow> \<lparr>displayStyle = DisplayBlock, preview = Some cv\<rparr>
                    | _ \<Rightarrow> el)
         in s\<lparr>underneathEl := Some el'\<rparr>))"

definition hidePageUnderneath :: "app_state \<Rightarrow> app_state" where
  "hidePageUnderneath s =
     (case underneathEl s of
        None \<Rightarrow> s
      | Some e \<Rightarrow> s\<lparr>underneathEl := Some (e\<lparr>displayStyle := DisplayNone\<rparr>)\<rparr>)"

text \<open>The handler of the engine's \<^verbatim>\<open>changeState\<close> event.\<close>

definition onChangeState :: "flip_state \<Rightarrow> int \<Rightarrow> app_state \<Rightarrow> app_state" where
  "onChangeState ev currentIndex s =
     (let s1 = (if ev = Flipping \<or> ev = UserFold \<or> ev = FoldCorner then
                  (let s' = (if isDoublePageMode s then showPageUnderneath currentIndex s else s);
                       nextPages = filter (\<lambda>pageNum. 1 \<le> pageNum \<and> pageNum \<le> totalPages s')
                                     (map (\<lambda>i. currentIndex + 1 + i) [1..6])
                   in fold renderPageContent nextPages s')
                else s)
      in if ev = Read then hidePageUnderneath s1 else s1)"

text \<open>
  The handler of the engine's \<^verbatim>\<open>flip\<close> event: \<open>data\<close> is the event's page index,
  \<open>currentIndex\<close> the engine's answer when the visible pages are rendered.
\<close>

definition onFlip :: "int \<Rightarrow> int \<Rightarrow> app_state \<Rightarrow> app_state" where
  "onFlip data currentIndex s =
     (let s1 = s\<lparr>currentPage := data + 1\<rparr>;
          s2 = s1\<lparr>pageInputValue := currentPage s1\<rparr>;
          s3 = updateUrl s2
      in renderVisiblePages currentIndex s3)"

section \<open>Navigation\<close>

definition goToPage :: "int \<Rightarrow> app_state \<Rightarrow> app_state" where
  "goToPage pageNum s =
     (case pageFlip s of
        None \<Rightarrow> s
      | Some pf \<Rightarrow>
          (if pageNum \<ge> 1 \<and> pageNum \<le> totalPages s
           then s\<lparr>pageFlip := Some (pf\<lparr>flipCalls := flipCalls pf @ [pageNum - 1]\<rparr>),
                  currentPage := pageNum,
                  pageInputValue := pageNum\<rparr>
           else s))"

text \<open>
  \<^verbatim>\<open>goToPage(xs[i])\<close>: with \<^verbatim>\<open>undefined\<close> for an argument both comparisons of
  \<^verbatim>\<open>goToPage\<close> are false and nothing happens.
\<close>

definition goToPage_at :: "int list \<Rightarrow> int \<Rightarrow> app_state \<Rightarrow> app_state" where
  "goToPage_at xs i s = (case js_index xs i of None \<Rightarrow> s | Some pageNum \<Rightarrow> goToPage pageNum s)"

section \<open>Search\<close>

definition trim :: "string \<Rightarrow> string" where
  "trim str = rev (dropWhile is_white_space (rev (dropWhile is_white_space str)))"

fun string_includes :: "string \<Rightarrow> string \<Rightarrow> bool" where
  "string_includes [] query = (query = [])"
| "string_includes (c # cs) query = (prefix query (c # cs) \<or> string_includes cs query)"

definition updateSearchIndicator :: "app_state \<Rightarrow> app_state" where
  "updateSearchIndicator s =
     (if length (searchResults s) > 0
      then s\<lparr>searchResultsText := Position (currentSearchIndex s + 1) (int (length (searchResults s)))\<rparr>
      else s)"

definition handleSearch :: "string \<Rightarrow> app_state \<Rightarrow> app_state" where
  "handleSearch searchInputValue s =
     (let query = trim (toLowerCase searchInputValue) in
      if query = [] then
        s\<lparr>searchResults := [], currentSearchIndex := - 1, currentSearchQuery := [],
          searchResultsText := Blank\<rparr>
      else
        (let found = filter (\<lambda>i. string_includes (case pageTexts s i of Some pageText \<Rightarrow> pageText | None \<Rightarrow> []) query)
                       [1..totalPages s];
             s1 = s\<lparr>currentSearchQuery := query, searchResults := found\<rparr>
         in if length (searchResults s1) > 0
            then updateSearchIndicator (goToPage_at (searchResults s1) 0 (s1\<lparr>currentSearchIndex := 0\<rparr>))
            else s1\<lparr>currentSearchIndex := - 1, searchResultsText := NoResults\<rparr>))"

definition goToNextSearchResult :: "app_state \<Rightarrow> app_state" where
  "goToNextSearchResult s =
     (if length (searchResults s) = 0 then s
      else
        (let s1 = s\<lparr>currentSearchIndex :=
                      js_rem (currentSearchIndex s + 1) (int (length (searchResults s)))\<rparr>
         in updateSearchIndicator (goToPage_at (searchResults s1) (currentSearchIndex s1) s1)))"

definition goToPrevSearchResult :: "app_state \<Rightarrow> app_state" where
  "goToPrevSearchResult s =
     (if length (searchResults s) = 0 then s
      else
        (let s1 = s\<lparr>currentSearchIndex :=
                      js_rem (currentSearchIndex s - 1 + int (length (searchResults s)))
                        (int (length (searchResults s)))\<rparr>
         in updateSearchIndicator (goToPage_at (searchResults s1) (currentSearchIndex s1) s1)))"

section \<open>View mode and resize\<close>

definition toggleViewMode :: "app_state \<Rightarrow> app_state" where
  "toggleViewMode s =
     (if isMobile s \<and> \<not> isDoublePageMode s then showToast MobileDoubleUnsupported s
      else
        (let s1 = s\<lparr>isDoublePageMode := \<not> isDoublePageMode s\<rparr>
         in if pdfDoc s1 \<noteq> None then startInitFlipbook (s1\<lparr>pageCache := Map.empty\<rparr>) else s1))"

definition handleResize :: "window \<Rightarrow> app_state \<Rightarrow> app_state" where
  "handleResize win s =
     (let (modeChanged, s1) = checkMobileMode (innerWidth win) s in
      if pdfDoc s1 \<noteq> None \<and> pageFlip s1 \<noteq> None then
        (if modeChanged then startInitFlipbook (s1\<lparr>pageCache := Map.empty\<rparr>)
         else
           (let newWidth = (case viewerContainer win of Some (cw, ch) \<Rightarrow> cw | None \<Rightarrow> innerWidth win) - 40;
                expectedWidth = (if isDoublePageMode s1 then of_int newWidth / 2 else of_int newWidth :: rat)
            in if \<bar>expectedWidth - of_int (basePageWidth s1)\<bar> > 50 then startInitFlipbook s1 else s1))
      else s1)"

section \<open>Loading and replacing the document\<close>

definition openNewPdf :: "app_state \<Rightarrow> app_state" where
  "openNewPdf s =
     s\<lparr>pdfDoc := None, pageCache := Map.empty, pageTexts := Map.empty, searchResults := [],
       currentSearchIndex := - 1, currentPage := 1, zoom := 1, pageFlip := None,
       pageElements := Map.empty, textLayers := Map.empty, searchResultsText := Blank,
       pageInputValue := 1\<rparr>"

text \<open>
  \<^verbatim>\<open>loadPdf\<close>: \<open>opened\<close> is the outcome of \<^verbatim>\<open>pdfjsLib.getDocument\<close> on the file's bytes.
\<close>

definition loadPdf :: "js_error + pdf_document \<Rightarrow> window \<Rightarrow> int \<Rightarrow> app_state \<Rightarrow> app_state" where
  "loadPdf opened win currentIndex s =
     (case opened of
        Inl e \<Rightarrow> showToast LoadError s
      | Inr doc \<Rightarrow>
          (let s1 = s\<lparr>pdfDoc := Some doc, totalPages := numPages doc\<rparr>;
               s2 = extractAllPageTexts s1;
               s3 = initFlipbook win currentIndex s2
           in preRenderAllPages s3))"

section \<open>The operations of a session\<close>

datatype operation =
    CheckMobileMode int
  | CheckUrlForPdf string
  | LoadPdf "js_error + pdf_document" window int
  | OpenNewPdf
  | InitFlipbook window int
  | RenderPage int int int
  | RenderPageContent int
  | RenderVisiblePages int
  | PreRenderAllPages
  | ExtractAllPageTexts
  | OnFlip int int
  | OnChangeState flip_state int
  | GoToPage int
  | HandleSearch string
  | GoToNextSearchResult
  | GoToPrevSearchResult
  | ToggleViewMode
  | HandleResize window

fun perform :: "operation \<Rightarrow> app_state \<Rightarrow> app_state" where
  "perform (CheckMobileMode w) s = snd (checkMobileMode w s)"
| "perform (CheckUrlForPdf hash) s = checkUrlForPdf hash s"
| "perform (LoadPdf opened win i) s = loadPdf opened win i s"
| "perform OpenNewPdf s = openNewPdf s"
| "perform (InitFlipbook win i) s = initFlipbook win i s"
| "perform (RenderPage p w h) s = snd (renderPage p w h s)"
| "perform (RenderPageContent p) s = renderPageContent p s"
| "perform (RenderVisiblePages i) s = renderVisiblePages i s"
| "perform PreRenderAllPages s = preRenderAllPages s"
| "perform ExtractAllPageTexts s = extractAllPageTexts s"
| "perform (OnFlip d i) s = onFlip d i s"
| "perform (OnChangeState ev i) s = onChangeState ev i s"
| "perform (GoToPage n) s = goToPage n s"
| "perform (HandleSearch q) s = handleSearch q s"
| "perform GoToNextSearchResult s = goToNextSearchResult s"
| "perform GoToPrevSearchResult s = goToPrevSearchResult s"
| "perform ToggleViewMode s = toggleViewMode s"
| "perform (HandleResize win) s = handleResize win s"

definition run :: "operation list \<Rightarrow> app_state \<Rightarrow> app_state" where
  "run ops s = fold perform ops s"

section \<open>Properties checked of the states\<close>

text \<open>The invariant of the data model: a mobile device class shows single pages.\<close>

definition mobile_single :: "app_state \<Rightarrow> bool" where
  "mobile_single s = (if isMobile s then \<not> isDoublePageMode s else True)"

section \<open>Example documents and windows\<close>

definition good_page :: page_proxy where
  "good_page = \<lparr>viewportWidth = 600, viewportHeight = 800, renderOutcome = None,
                 textContent = Inr [''Hello'', ''World'']\<rparr>"

definition bad_page :: page_proxy where
  "bad_page = \<lparr>viewportWidth = 600, viewportHeight = 800, renderOutcome = Some RenderError,
                textContent = Inl TextContentError\<rparr>"

text \<open>A document of ten pages whose fourth page can neither be drawn nor read.\<close>

definition ten_pages :: pdf_document where
  "ten_pages = \<lparr>numPages = 10,
                 getPage = (\<lambda>i. if 1 \<le> i \<and> i \<le> 10 then (if i = 4 then Inr bad_page else Inr good_page)
                                else Inl GetPageError)\<rparr>"

definition desktop_window :: window where
  "desktop_window = \<lparr>innerWidth = 1200, innerHeight = 900, viewerContainer = Some (1200, 872)\<rparr>"

definition small_window :: window where
  "small_window = \<lparr>innerWidth = 300, innerHeight = 472, viewerContainer = Some (300, 472)\<rparr>"

text \<open>A session with a ten-page document and an engine, before any page is drawn.\<close>

definition ten_page_session :: app_state where
  "ten_page_session =
     initial_state\<lparr>pdfDoc := Some ten_pages, totalPages := 10,
                   pageFlip := Some \<lparr>startPage = 0, flipCalls = []\<rparr>,
                   pageElements := (\<lambda>i. if 1 \<le> i \<and> i \<le> 10 then Some None else None)\<rparr>"

section \<open>Spreads of the double-page layout\<close>

text \<open>
  Modelled from the spec, for comparison with \<open>nextRightPageNum\<close>: the pairing rule of
  the double-page layout. Page 1 is a lone cover, the other pages pair as
  \<open>(2k, 2k+1)\<close>, and an even last page is a lone back cover.
\<close>

definition spec_spreads :: "int \<Rightarrow> int list list" where
  "spec_spreads pageCount =
     [1] # map (\<lambda>k. if 2 * k + 1 \<le> pageCount then [2 * k, 2 * k + 1] else [2 * k])
             [1..pageCount div 2]"

fun spec_next_spread :: "int list list \<Rightarrow> int \<Rightarrow> int list option" where
  "spec_next_spread (sp # nxt # rest) p =
     (if p \<in> set sp then Some nxt else spec_next_spread (nxt # rest) p)"
| "spec_next_spread sps p = None"

text \<open>
  The right-hand page of the spread after the one that shows the page of page-flip
  index \<open>currentIndex\<close> (page \<open>currentIndex + 1\<close>), when that spread has two pages.
\<close>

definition spec_next_right_page :: "int \<Rightarrow> int \<Rightarrow> int option" where
  "spec_next_right_page pageCount currentIndex =
     (case spec_next_spread (spec_spreads pageCount) (currentIndex + 1) of
        Some [l, r] \<Rightarrow> Some r
      | _ \<Rightarrow> None)"

section \<open>Operations that keep the render cache\<close>


section \<open>Example sessions\<close>





text \<open>A double-page session of ten pages in which every page holds its canvas.\<close>

definition drawn_session :: app_state where
  "drawn_session = preRenderAllPages ten_page_session"

section \<open>What the decoder does with a page\<close>

text \<open>
  \<open>draws s p\<close>: the document of \<open>s\<close> hands out page \<open>p\<close> and draws it.
  \<open>reads s i\<close>: it hands out page \<open>i\<close> and gives its text.
\<close>

definition draws :: "app_state \<Rightarrow> int \<Rightarrow> bool" where
  "draws s p =
     (case pdfDoc s of
        None \<Rightarrow> False
      | Some doc \<Rightarrow> (case getPage doc p of Inl e \<Rightarrow> False | Inr page \<Rightarrow> renderOutcome page = None))"

definition reads :: "app_state \<Rightarrow> int \<Rightarrow> bool" where
  "reads s i =
     (case pdfDoc s of
        None \<Rightarrow> False
      | Some doc \<Rightarrow>
          (case getPage doc i of
             Inl e \<Rightarrow> False
           | Inr page \<Rightarrow> (case textContent page of Inl e \<Rightarrow> False | Inr items \<Rightarrow> True)))"

section \<open>Frame lemmas: what rendering leaves alone\<close>

lemma renderPage_frame:
  "pdfDoc (snd (renderPage p w h s)) = pdfDoc s"
  "totalPages (snd (renderPage p w h s)) = totalPages s"
  "isMobile (snd (renderPage p w h s)) = isMobile s"
  "isDoublePageMode (snd (renderPage p w h s)) = isDoublePageMode s"
  "basePageWidth (snd (renderPage p w h s)) = basePageWidth s"
  "basePageHeight (snd (renderPage p w h s)) = basePageHeight s"
  "pageElements (snd (renderPage p w h s)) = pageElements s"
  by (simp_all add: renderPage_def renderPage_try_def logCall_def Let_def
        split: option.splits sum.splits prod.splits)

lemma addTextLayer_frame:
  "pdfDoc (addTextLayer p s) = pdfDoc s"
  "totalPages (addTextLayer p s) = totalPages s"
  "isMobile (addTextLayer p s) = isMobile s"
  "isDoublePageMode (addTextLayer p s) = isDoublePageMode s"
  "basePageWidth (addTextLayer p s) = basePageWidth s"
  "basePageHeight (addTextLayer p s) = basePageHeight s"
  "pageElements (addTextLayer p s) = pageElements s"
  "pageCache (addTextLayer p s) = pageCache s"
  by (simp_all add: addTextLayer_def logCall_def Let_def split: option.splits sum.splits)

lemma renderPageContent_frame:
  "pdfDoc (renderPageContent p s) = pdfDoc s"
  "totalPages (renderPageContent p s) = totalPages s"
  "isMobile (renderPageContent p s) = isMobile s"
  "isDoublePageMode (renderPageContent p s) = isDoublePageMode s"
  "basePageWidth (renderPageContent p s) = basePageWidth s"
  "basePageHeight (renderPageContent p s) = basePageHeight s"
proof -
  obtain cv s1 where r: "renderPage p (basePageWidth s) (basePageHeight s) s = (cv, s1)"
    by (cases "renderPage p (basePageWidth s) (basePageHeight s) s")
  have s1: "pdfDoc s1 = pdfDoc s" "totalPages s1 = totalPages s" "isMobile s1 = isMobile s"
    "isDoublePageMode s1 = isDoublePageMode s" "basePageWidth s1 = basePageWidth s"
    "basePageHeight s1 = basePageHeight s"
    using renderPage_frame [of p "basePageWidth s" "basePageHeight s" s] r by simp_all
  show "pdfDoc (renderPageContent p s) = pdfDoc s"
    "totalPages (renderPageContent p s) = totalPages s"
    "isMobile (renderPageContent p s) = isMobile s"
    "isDoublePageMode (renderPageContent p s) = isDoublePageMode s"
    "basePageWidth (renderPageContent p s) = basePageWidth s"
    "basePageHeight (renderPageContent p s) = basePageHeight s"
    by (simp_all add: renderPageContent_def addTextLayer_frame r s1 split: option.splits)
qed

lemma fold_renderPageContent_frame:
  "pdfDoc (fold renderPageContent ps s) = pdfDoc s"
  "totalPages (fold renderPageContent ps s) = totalPages s"
  "isMobile (fold renderPageContent ps s) = isMobile s"
  "isDoublePageMode (fold renderPageContent ps s) = isDoublePageMode s"
  "basePageWidth (fold renderPageContent ps s) = basePageWidth s"
  "basePageHeight (fold renderPageContent ps s) = basePageHeight s"
  by (induction ps arbitrary: s) (simp_all add: renderPageContent_frame)

lemma extractPageText_frame:
  "pdfDoc (extractPageText i s) = pdfDoc s"
  "totalPages (extractPageText i s) = totalPages s"
  "isMobile (extractPageText i s) = isMobile s"
  "isDoublePageMode (extractPageText i s) = isDoublePageMode s"
  "pageCache (extractPageText i s) = pageCache s"
  by (simp_all add: extractPageText_def extractPageText_try_def logCall_def Let_def
        split: option.splits sum.splits prod.splits)

lemma fold_extractPageText_frame:
  "pdfDoc (fold extractPageText ps s) = pdfDoc s"
  "totalPages (fold extractPageText ps s) = totalPages s"
  "isMobile (fold extractPageText ps s) = isMobile s"
  "isDoublePageMode (fold extractPageText ps s) = isDoublePageMode s"
  "pageCache (fold extractPageText ps s) = pageCache s"
  by (induction ps arbitrary: s) (simp_all add: extractPageText_frame)

lemma firstPageAspectRatio_frame:
  "isMobile (snd (firstPageAspectRatio s)) = isMobile s"
  "isDoublePageMode (snd (firstPageAspectRatio s)) = isDoublePageMode s"
  "pageCache (snd (firstPageAspectRatio s)) = pageCache s"
  "currentPage (snd (firstPageAspectRatio s)) = currentPage s"
  by (simp_all add: firstPageAspectRatio_def logCall_def Let_def split: option.splits sum.splits)

lemma initFlipbook_mode:
  "isMobile (initFlipbook win i s) = isMobile s"
  "isDoublePageMode (initFlipbook win i s) = isDoublePageMode s"
  by (simp_all add: initFlipbook_def renderVisiblePages_def fold_renderPageContent_frame
        firstPageAspectRatio_frame Let_def split: prod.splits)
     (metis firstPageAspectRatio_frame(1,2) snd_conv)+

lemma goToPage_mode:
  "isMobile (goToPage n s) = isMobile s"
  "isDoublePageMode (goToPage n s) = isDoublePageMode s"
  by (simp_all add: goToPage_def split: option.splits)

lemma goToPage_at_mode:
  "isMobile (goToPage_at xs i s) = isMobile s"
  "isDoublePageMode (goToPage_at xs i s) = isDoublePageMode s"
  by (simp_all add: goToPage_at_def goToPage_mode split: option.splits)

lemma search_mode:
  "isMobile (handleSearch q s) = isMobile s"
  "isDoublePageMode (handleSearch q s) = isDoublePageMode s"
  "isMobile (goToNextSearchResult s) = isMobile s"
  "isDoublePageMode (goToNextSearchResult s) = isDoublePageMode s"
  "isMobile (goToPrevSearchResult s) = isMobile s"
  "isDoublePageMode (goToPrevSearchResult s) = isDoublePageMode s"
  by (simp_all add: handleSearch_def goToNextSearchResult_def goToPrevSearchResult_def
        updateSearchIndicator_def goToPage_at_mode Let_def)

lemma underneath_mode:
  "isMobile (showPageUnderneath i s) = isMobile s"
  "isDoublePageMode (showPageUnderneath i s) = isDoublePageMode s"
  "totalPages (showPageUnderneath i s) = totalPages s"
  "isMobile (hidePageUnderneath s) = isMobile s"
  "isDoublePageMode (hidePageUnderneath s) = isDoublePageMode s"
  by (simp_all add: showPageUnderneath_def hidePageUnderneath_def Let_def split: option.splits)

lemma onChangeState_mode:
  "isMobile (onChangeState ev i s) = isMobile s"
  "isDoublePageMode (onChangeState ev i s) = isDoublePageMode s"
  by (simp_all add: onChangeState_def fold_renderPageContent_frame underneath_mode Let_def)

lemma loadPdf_mode:
  "isMobile (loadPdf opened win i s) = isMobile s"
  "isDoublePageMode (loadPdf opened win i s) = isDoublePageMode s"
  by (simp_all add: loadPdf_def showToast_def preRenderAllPages_def extractAllPageTexts_def
        fold_renderPageContent_frame initFlipbook_mode fold_extractPageText_frame Let_def
        split: sum.splits)

lemma perform_mode:
  assumes "\<forall>w. op \<noteq> CheckMobileMode w" "op \<noteq> ToggleViewMode" "\<forall>win. op \<noteq> HandleResize win"
  shows "isMobile (perform op s) = isMobile s \<and> isDoublePageMode (perform op s) = isDoublePageMode s"
  using assms
  by (cases op)
     (simp_all add: checkUrlForPdf_def loadPdf_mode openNewPdf_def initFlipbook_mode
        renderPage_frame renderPageContent_frame renderVisiblePages_def preRenderAllPages_def
        extractAllPageTexts_def fold_renderPageContent_frame fold_extractPageText_frame
        onFlip_def updateUrl_def onChangeState_mode goToPage_mode search_mode Let_def)

lemma checkMobileMode_single: "mobile_single (snd (checkMobileMode w s))"
  by (simp add: checkMobileMode_def mobile_single_def Let_def)

lemma toggleViewMode_single: "mobile_single s \<Longrightarrow> mobile_single (toggleViewMode s)"
  by (auto simp: toggleViewMode_def mobile_single_def showToast_def startInitFlipbook_def Let_def
        split: if_splits)

lemma handleResize_single: "mobile_single (handleResize win s)"
proof -
  obtain b s1 where c: "checkMobileMode (innerWidth win) s = (b, s1)"
    by (cases "checkMobileMode (innerWidth win) s")
  have "mobile_single s1"
    using checkMobileMode_single [of "innerWidth win" s] c by simp
  then show ?thesis
    by (simp add: handleResize_def c mobile_single_def startInitFlipbook_def Let_def)
qed

lemma perform_single: "mobile_single s \<Longrightarrow> mobile_single (perform op s)"
proof (cases "(\<forall>w. op \<noteq> CheckMobileMode w) \<and> op \<noteq> ToggleViewMode \<and> (\<forall>win. op \<noteq> HandleResize win)")
  case True
  assume "mobile_single s"
  with perform_mode [of op s] True show ?thesis
    by (simp add: mobile_single_def)
next
  case False
  assume "mobile_single s"
  with False show ?thesis
    by (auto simp: checkMobileMode_single toggleViewMode_single handleResize_single)
qed

lemma run_single: "mobile_single s \<Longrightarrow> mobile_single (run ops s)"
  unfolding run_def by (induction ops arbitrary: s) (simp_all add: perform_single)

section \<open>Numbers and their decimal strings\<close>

lemma of_char_digit_char: "d < 10 \<Longrightarrow> (of_char (digit_char d) :: nat) = 48 + d"
  by (simp add: digit_char_def)

lemma digit_value_digit_char: "d < 10 \<Longrightarrow> digit_value 10 (digit_char d) = Some d"
  by (simp add: digit_value_def of_char_digit_char Let_def)

lemma digit_char_not_special:
  assumes "d < 10"
  shows "digit_char d \<noteq> CHR ''-''" "digit_char d \<noteq> CHR ''+''" "digit_char d \<noteq> CHR ''=''"
    "digit_char d \<noteq> CHR ''x''" "digit_char d \<noteq> CHR ''X''" "\<not> is_white_space (digit_char d)"
proof -
  have k: "(of_char (digit_char d) :: nat) = 48 + d"
    using assms by (rule of_char_digit_char)
  have ne: "(of_char c :: nat) < 48 \<or> (of_char c :: nat) > 57 \<Longrightarrow> digit_char d \<noteq> c" for c
    using k assms by auto
  show "digit_char d \<noteq> CHR ''-''" by (rule ne) simp
  show "digit_char d \<noteq> CHR ''+''" by (rule ne) simp
  show "digit_char d \<noteq> CHR ''=''" by (rule ne) simp
  show "digit_char d \<noteq> CHR ''x''" by (rule ne) simp
  show "digit_char d \<noteq> CHR ''X''" by (rule ne) simp
  show "\<not> is_white_space (digit_char d)"
    unfolding is_white_space_def using ne [of "CHR '' ''"] ne [of "CHR 0x09"] ne [of "CHR 0x0A"]
      ne [of "CHR 0x0B"] ne [of "CHR 0x0C"] ne [of "CHR 0x0D"] by simp
qed

lemma nat_digits_nonempty: "nat_digits n \<noteq> []"
  by (induction n rule: nat_digits.induct) (subst nat_digits.simps, simp)

lemma nat_digits_chars: "c \<in> set (nat_digits n) \<Longrightarrow> \<exists>d < 10. c = digit_char d"
proof (induction n rule: nat_digits.induct)
  case (1 n)
  show ?case
  proof (cases "n < 10")
    case True
    with "1.prems" show ?thesis
      by (subst (asm) nat_digits.simps) auto
  next
    case False
    with "1.prems" have "c \<in> set (nat_digits (n div 10)) \<or> c = digit_char (n mod 10)"
      by (subst (asm) nat_digits.simps) auto
    then show ?thesis
    proof
      assume "c \<in> set (nat_digits (n div 10))"
      with "1.IH" False show ?thesis by simp
    next
      assume "c = digit_char (n mod 10)"
      moreover have "n mod 10 < 10" by simp
      ultimately show ?thesis by blast
    qed
  qed
qed

lemma digits_value_snoc:
  "digits_value r (ds @ [c]) = digits_value r ds * r + (case digit_value r c of Some d \<Rightarrow> d | None \<Rightarrow> 0)"
  by (simp add: digits_value_def)

lemma digits_value_nat_digits: "digits_value 10 (nat_digits n) = n"
proof (induction n rule: nat_digits.induct)
  case (1 n)
  show ?case
  proof (cases "n < 10")
    case True
    then show ?thesis
      by (subst nat_digits.simps) (simp add: digits_value_def digit_value_digit_char)
  next
    case False
    with "1.IH" have ih: "digits_value 10 (nat_digits (n div 10)) = n div 10" by simp
    have "digits_value 10 (nat_digits n) = digits_value 10 (nat_digits (n div 10) @ [digit_char (n mod 10)])"
      using False by (subst nat_digits.simps) simp
    also have "\<dots> = (n div 10) * 10 + n mod 10"
      by (simp add: digits_value_snoc ih digit_value_digit_char)
    finally show ?thesis by simp
  qed
qed
lemma takeWhile_append_stop:
  assumes "\<forall>x \<in> set xs. P x" "ys = [] \<or> \<not> P (hd ys)"
  shows "takeWhile P (xs @ ys) = xs"
  using assms by (cases ys) (simp_all add: takeWhile_append2)

lemma parseInt_digits:
  assumes ds: "ds = nat_digits m"
    and rest: "rest = [] \<or> hd rest = CHR ''-'' \<or> hd rest = CHR ''=''"
  shows "take 2 (ds @ rest) \<noteq> ''0x''" "take 2 (ds @ rest) \<noteq> ''0X''"
    "takeWhile (\<lambda>c. digit_value 10 c \<noteq> None) (ds @ rest) = ds"
proof -
  have chars: "\<exists>d < 10. c = digit_char d" if "c \<in> set ds" for c
    using nat_digits_chars that ds by blast
  have ne: "ds \<noteq> []"
    using nat_digits_nonempty ds by simp
  obtain d0 dr where d0: "ds = d0 # dr"
    using ne by (cases ds) auto
  have nohex: "take 2 (ds @ rest) \<noteq> [a, c]" if c: "c = CHR ''x'' \<or> c = CHR ''X''" for a c
  proof (cases dr)
    case Nil
    show ?thesis
    proof (cases rest)
      case Nil
      with \<open>dr = []\<close> d0 show ?thesis by simp
    next
      case (Cons r rs)
      with rest have "r = CHR ''-'' \<or> r = CHR ''=''" by simp
      with c have "r \<noteq> c" by auto
      with Cons \<open>dr = []\<close> d0 show ?thesis by simp
    qed
  next
    case (Cons d1 dr')
    then have "d1 \<in> set ds" using d0 by simp
    then obtain k where "k < 10" "d1 = digit_char k" using chars by blast
    with c have "d1 \<noteq> c" using digit_char_not_special(4,5) by blast
    with Cons d0 show ?thesis by simp
  qed
  show "take 2 (ds @ rest) \<noteq> ''0x''" by (rule nohex) simp
  show "take 2 (ds @ rest) \<noteq> ''0X''" by (rule nohex) simp
  have "digit_value 10 c \<noteq> None" if cin: "c \<in> set ds" for c
  proof -
    obtain k where "k < 10" "c = digit_char k" using chars [OF cin] by blast
    then show ?thesis by (simp add: digit_value_digit_char)
  qed
  then have all: "\<forall>c \<in> set ds. digit_value 10 c \<noteq> None" by blast
  have "digit_value 10 CHR ''-'' = None" "digit_value 10 CHR ''='' = None"
    by (simp_all add: digit_value_def Let_def)
  with rest have stop: "rest = [] \<or> \<not> digit_value 10 (hd rest) \<noteq> None"
    by auto
  from all stop show "takeWhile (\<lambda>c. digit_value 10 c \<noteq> None) (ds @ rest) = ds"
    by (rule takeWhile_append_stop)
qed

lemma parseInt_unsigned:
  assumes "S \<noteq> []" "\<not> is_white_space (hd S)" "hd S \<noteq> CHR ''-''" "hd S \<noteq> CHR ''+''"
    "take 2 S \<noteq> ''0x''" "take 2 S \<noteq> ''0X''"
    "takeWhile (\<lambda>c. digit_value 10 c \<noteq> None) S = Z" "Z \<noteq> []"
  shows "parseInt S = Some (int (digits_value 10 Z))"
proof -
  obtain a as where S: "S = a # as"
    using assms(1) by (cases S) auto
  have dw: "dropWhile is_white_space S = S"
    using assms(2) S by simp
  show ?thesis
    unfolding parseInt_def dw Let_def using assms by simp
qed

lemma parseInt_negative:
  assumes "take 2 S \<noteq> ''0x''" "take 2 S \<noteq> ''0X''"
    "takeWhile (\<lambda>c. digit_value 10 c \<noteq> None) S = Z" "Z \<noteq> []"
  shows "parseInt (CHR ''-'' # S) = Some (- int (digits_value 10 Z))"
proof -
  have dw: "dropWhile is_white_space (CHR ''-'' # S) = CHR ''-'' # S"
    by (simp add: is_white_space_def)
  show ?thesis
    unfolding parseInt_def dw Let_def using assms by simp
qed

lemma parseInt_number_to_string_append:
  assumes rest: "rest = [] \<or> hd rest = CHR ''-'' \<or> hd rest = CHR ''=''"
  shows "parseInt (number_to_string n @ rest) = Some n"
proof -
  define ds where "ds = nat_digits (nat \<bar>n\<bar>)"
  note facts = parseInt_digits [OF ds_def rest]
  have ne: "ds \<noteq> []"
    using nat_digits_nonempty ds_def by simp
  have "hd ds \<in> set (nat_digits (nat \<bar>n\<bar>))"
    using ne ds_def by simp
  then obtain k where k: "k < 10" "hd ds = digit_char k"
    using nat_digits_chars by blast
  have hd0: "hd (ds @ rest) \<noteq> CHR ''-''" "hd (ds @ rest) \<noteq> CHR ''+''"
    "\<not> is_white_space (hd (ds @ rest))"
    using digit_char_not_special [OF k(1)] k(2) ne by simp_all
  have val: "digits_value 10 ds = nat \<bar>n\<bar>"
    by (simp add: ds_def digits_value_nat_digits)
  have ne2: "ds @ rest \<noteq> []"
    using ne by simp
  show ?thesis
  proof (cases "n < 0")
    case True
    then have s: "number_to_string n @ rest = CHR ''-'' # (ds @ rest)"
      by (simp add: number_to_string_def ds_def)
    show ?thesis
      unfolding s using parseInt_negative [OF facts ne] val True by simp
  next
    case False
    then have "nat_digits (nat n) = ds"
      by (simp add: ds_def)
    with False have s: "number_to_string n @ rest = ds @ rest"
      by (simp add: number_to_string_def)
    show ?thesis
      unfolding s using parseInt_unsigned [OF ne2 hd0(3) hd0(1) hd0(2) facts ne] val False by simp
  qed
qed

lemma parseInt_number_to_string: "parseInt (number_to_string n) = Some n"
  using parseInt_number_to_string_append [of "[]" n] by simp

lemma number_to_string_inject:
  assumes "number_to_string a = number_to_string b"
  shows "a = b"
proof -
  have "Some a = parseInt (number_to_string a)"
    by (simp add: parseInt_number_to_string)
  also have "\<dots> = parseInt (number_to_string b)"
    by (simp only: assms)
  also have "\<dots> = Some b"
    by (simp add: parseInt_number_to_string)
  finally show ?thesis by simp
qed

lemma cacheKey_inject:
  assumes "cacheKey p w h = cacheKey p' w' h'"
  shows "p = p' \<and> w = w' \<and> h = h'"
proof -
  let ?r = "\<lambda>w h. CHR ''-'' # number_to_string w @ CHR ''-'' # number_to_string h"
  have k: "number_to_string p @ ?r w h = number_to_string p' @ ?r w' h'"
    using assms by (simp add: cacheKey_def)
  have "parseInt (number_to_string p @ ?r w h) = Some p"
    by (rule parseInt_number_to_string_append) simp
  moreover have "parseInt (number_to_string p' @ ?r w' h') = Some p'"
    by (rule parseInt_number_to_string_append) simp
  ultimately have p: "p = p'" using k by simp
  with k have k2: "number_to_string w @ CHR ''-'' # number_to_string h
      = number_to_string w' @ CHR ''-'' # number_to_string h'"
    by simp
  have "parseInt (number_to_string w @ CHR ''-'' # number_to_string h) = Some w"
    by (rule parseInt_number_to_string_append) simp
  moreover have "parseInt (number_to_string w' @ CHR ''-'' # number_to_string h') = Some w'"
    by (rule parseInt_number_to_string_append) simp
  ultimately have w: "w = w'" using k2 by simp
  with k2 have "number_to_string h = number_to_string h'" by simp
  then have "h = h'" by (rule number_to_string_inject)
  with p w show ?thesis by simp
qed

section \<open>Rendering one page\<close>

lemma renderPage_hit:
  "pageCache s (cacheKey p w h) = Some cv \<Longrightarrow> renderPage p w h s = (cv, s)"
  by (simp add: renderPage_def)

lemma renderPage_try_draws:
  assumes "draws s p"
  shows "\<exists>cv. renderPage_try p w h s =
           (Inr cv, (logCall (Render p) (logCall (GetPage p) s))
              \<lparr>pageCache := (pageCache s)(cacheKey p w h \<mapsto> cv)\<rparr>)
         \<and> content cv = PageBitmap p"
  using assms
  by (auto simp: draws_def renderPage_try_def logCall_def Let_def split: option.splits sum.splits)

lemma renderPage_try_fails:
  assumes "\<not> draws s p"
  shows "\<exists>e s'. renderPage_try p w h s = (Inl e, s') \<and> pageCache s' = pageCache s
           \<and> pdfDoc s' = pdfDoc s"
  using assms
  by (auto simp: draws_def renderPage_try_def logCall_def Let_def split: option.splits sum.splits)

lemma renderPage_miss_draws:
  assumes "pageCache s (cacheKey p w h) = None" "draws s p"
  shows "\<exists>cv. renderPage p w h s =
           (cv, (logCall (Render p) (logCall (GetPage p) s))
              \<lparr>pageCache := (pageCache s)(cacheKey p w h \<mapsto> cv)\<rparr>)
         \<and> content cv = PageBitmap p"
proof -
  obtain cv where "renderPage_try p w h s =
           (Inr cv, (logCall (Render p) (logCall (GetPage p) s))
              \<lparr>pageCache := (pageCache s)(cacheKey p w h \<mapsto> cv)\<rparr>)" "content cv = PageBitmap p"
    using renderPage_try_draws [OF assms(2)] by blast
  then show ?thesis
    using assms(1) by (simp add: renderPage_def)
qed

lemma renderPage_miss_fails:
  assumes "pageCache s (cacheKey p w h) = None" "\<not> draws s p"
  shows "fst (renderPage p w h s) = createErrorPage w h"
    "pageCache (snd (renderPage p w h s)) = pageCache s"
proof -
  obtain e s' where t: "renderPage_try p w h s = (Inl e, s')" "pageCache s' = pageCache s"
    using renderPage_try_fails [OF assms(2)] by blast
  show "fst (renderPage p w h s) = createErrorPage w h"
    using assms(1) t by (simp add: renderPage_def)
  show "pageCache (snd (renderPage p w h s)) = pageCache s"
    using assms(1) t by (simp add: renderPage_def)
qed

lemma draws_cong: "pdfDoc s' = pdfDoc s \<Longrightarrow> draws s' p = draws s p"
  by (simp add: draws_def)

lemma renderPage_draws: "draws (snd (renderPage p w h s)) q = draws s q"
  by (rule draws_cong) (rule renderPage_frame)


lemma renderPage_other_key:
  assumes "(p', w', h') \<noteq> (p, w, h)"
  shows "pageCache (snd (renderPage p w h s)) (cacheKey p' w' h') = pageCache s (cacheKey p' w' h')"
proof -
  have k: "cacheKey p' w' h' \<noteq> cacheKey p w h"
    using assms cacheKey_inject by blast
  show ?thesis
  proof (cases "pageCache s (cacheKey p w h)")
    case (Some cv)
    then show ?thesis by (simp add: renderPage_hit)
  next
    case None
    show ?thesis
    proof (cases "draws s p")
      case True
      from renderPage_miss_draws [OF None True]
      obtain cv where "renderPage p w h s =
           (cv, (logCall (Render p) (logCall (GetPage p) s))
              \<lparr>pageCache := (pageCache s)(cacheKey p w h \<mapsto> cv)\<rparr>)"
        by blast
      then show ?thesis
        using k by simp
    next
      case False
      then show ?thesis
        using renderPage_miss_fails(2) [OF None False] by simp
    qed
  qed
qed

lemma logCall_frame:
  "pageCache (logCall c s) = pageCache s"
  "pdfDoc (logCall c s) = pdfDoc s"
  "decoderLog (logCall c s) = decoderLog s @ [c]"
  by (simp_all add: logCall_def)

lemma renderPage_rejects:
  assumes "pageCache s (cacheKey p w h) = None" "pdfDoc s = Some doc"
    "getPage doc p = Inr pg" "renderOutcome pg = Some e"
  shows "renderPage p w h s = (createErrorPage w h, logCall (Render p) (logCall (GetPage p) s))"
  using assms by (simp add: renderPage_def renderPage_try_def Let_def)

lemma renderPage_no_page:
  assumes "pageCache s (cacheKey p w h) = None" "pdfDoc s = Some doc" "getPage doc p = Inl e"
  shows "renderPage p w h s = (createErrorPage w h, logCall (GetPage p) s)"
  using assms by (simp add: renderPage_def renderPage_try_def Let_def)

lemma ten_page_session_facts:
  "pageCache ten_page_session k = None"
  "pdfDoc ten_page_session = Some ten_pages"
  "totalPages ten_page_session = 10"
  "decoderLog ten_page_session = []"
  "getPage ten_pages 4 = Inr bad_page"
  "renderOutcome bad_page = Some RenderError"
  "textContent bad_page = Inl TextContentError"
  "basePageWidth ten_page_session = 400"
  "basePageHeight ten_page_session = 560"
  by (simp_all add: ten_page_session_def initial_state_def ten_pages_def bad_page_def)

section \<open>Frame lemmas: the current page and the engine\<close>

lemma renderPage_nav:
  "currentPage (snd (renderPage p w h s)) = currentPage s"
  "pageFlip (snd (renderPage p w h s)) = pageFlip s"
  by (simp_all add: renderPage_def renderPage_try_def logCall_def Let_def
        split: option.splits sum.splits prod.splits)

lemma addTextLayer_nav:
  "currentPage (addTextLayer p s) = currentPage s"
  "pageFlip (addTextLayer p s) = pageFlip s"
  by (simp_all add: addTextLayer_def logCall_def Let_def split: option.splits sum.splits)

lemma renderPageContent_nav:
  "currentPage (renderPageContent p s) = currentPage s"
  "pageFlip (renderPageContent p s) = pageFlip s"
proof -
  obtain cv s1 where r: "renderPage p (basePageWidth s) (basePageHeight s) s = (cv, s1)"
    by (cases "renderPage p (basePageWidth s) (basePageHeight s) s")
  have s1: "currentPage s1 = currentPage s" "pageFlip s1 = pageFlip s"
    using renderPage_nav [of p "basePageWidth s" "basePageHeight s" s] r by simp_all
  show "currentPage (renderPageContent p s) = currentPage s"
    "pageFlip (renderPageContent p s) = pageFlip s"
    by (simp_all add: renderPageContent_def addTextLayer_nav r s1 split: option.splits)
qed

lemma fold_renderPageContent_nav:
  "currentPage (fold renderPageContent ps s) = currentPage s"
  "pageFlip (fold renderPageContent ps s) = pageFlip s"
  by (induction ps arbitrary: s) (simp_all add: renderPageContent_nav)



lemma initFlipbook_engine:
  "pageFlip (initFlipbook win i s) = Some \<lparr>startPage = currentPage s - 1, flipCalls = []\<rparr>"
  "currentPage (initFlipbook win i s) = currentPage s"
  "totalPages (initFlipbook win i s) = totalPages s"
proof -
  obtain r s1 where f: "firstPageAspectRatio s = (r, s1)"
    by (cases "firstPageAspectRatio s")
  have s1: "currentPage s1 = currentPage s" "totalPages s1 = totalPages s"
    using f by (auto simp: firstPageAspectRatio_def logCall_def Let_def split: option.splits sum.splits)
  show "pageFlip (initFlipbook win i s) = Some \<lparr>startPage = currentPage s - 1, flipCalls = []\<rparr>"
    "currentPage (initFlipbook win i s) = currentPage s"
    "totalPages (initFlipbook win i s) = totalPages s"
    by (simp_all add: initFlipbook_def f renderVisiblePages_def fold_renderPageContent_nav
          fold_renderPageContent_frame s1 Let_def split: prod.splits)
qed




section \<open>Rendering and reading every page\<close>

lemma renderPage_fst_cong:
  assumes "pageCache s' (cacheKey p w h) = pageCache s (cacheKey p w h)" "pdfDoc s' = pdfDoc s"
  shows "fst (renderPage p w h s') = fst (renderPage p w h s)"
  using assms
  by (simp add: renderPage_def renderPage_try_def logCall_def Let_def
        split: option.splits sum.splits)

lemma renderPageContent_elements:
  "pageElements (renderPageContent q s) =
     (if pageElements s q = Some None
      then (pageElements s)(q \<mapsto> Some (fst (renderPage q (basePageWidth s) (basePageHeight s) s)))
      else pageElements s)"
proof -
  obtain cv s1 where r: "renderPage q (basePageWidth s) (basePageHeight s) s = (cv, s1)"
    by (cases "renderPage q (basePageWidth s) (basePageHeight s) s")
  have e: "pageElements s1 = pageElements s"
    using renderPage_frame(7) [of q "basePageWidth s" "basePageHeight s" s] r by simp
  show ?thesis
    by (auto simp: renderPageContent_def r e addTextLayer_frame split: option.splits)
qed

lemma renderPageContent_cache_other:
  assumes "q \<noteq> p"
  shows "pageCache (renderPageContent q s) (cacheKey p w h) = pageCache s (cacheKey p w h)"
proof -
  obtain cv s1 where r: "renderPage q (basePageWidth s) (basePageHeight s) s = (cv, s1)"
    by (cases "renderPage q (basePageWidth s) (basePageHeight s) s")
  have "(p, w, h) \<noteq> (q, basePageWidth s, basePageHeight s)"
    using assms by simp
  from renderPage_other_key [OF this, of s] r
  have "pageCache s1 (cacheKey p w h) = pageCache s (cacheKey p w h)"
    by simp
  then show ?thesis
    by (simp add: renderPageContent_def r addTextLayer_frame split: option.splits)
qed

lemma fold_renderPageContent_other:
  assumes "p \<notin> set qs"
  shows "pageElements (fold renderPageContent qs s) p = pageElements s p"
    "pageCache (fold renderPageContent qs s) (cacheKey p w h) = pageCache s (cacheKey p w h)"
  using assms
proof (induction qs arbitrary: s)
  case Nil
  { case 1 show ?case by simp }
  { case 2 show ?case by simp }
next
  case (Cons q qs)
  { case 1
    then have "q \<noteq> p" "p \<notin> set qs" by auto
    then show ?case
      using Cons.IH(1) [of "renderPageContent q s"]
      by (simp add: renderPageContent_elements) }
  { case 2
    then have "q \<noteq> p" "p \<notin> set qs" by auto
    then show ?case
      using Cons.IH(2) [of "renderPageContent q s"]
      by (simp add: renderPageContent_cache_other) }
qed

lemma renderPageContent_keeps_canvas:
  "pageElements s p = Some (Some cv) \<Longrightarrow> pageElements (renderPageContent q s) p = Some (Some cv)"
  by (auto simp: renderPageContent_elements)

lemma fold_renderPageContent_keeps_canvas:
  "pageElements s p = Some (Some cv) \<Longrightarrow> pageElements (fold renderPageContent qs s) p = Some (Some cv)"
  by (induction qs arbitrary: s) (simp_all add: renderPageContent_keeps_canvas)

lemma fold_renderPageContent_at:
  assumes "p \<notin> set xs" "pageElements s p = Some None"
  shows "pageElements (fold renderPageContent (xs @ p # ys) s) p =
           Some (Some (fst (renderPage p (basePageWidth s) (basePageHeight s) s)))"
proof -
  let ?s1 = "fold renderPageContent xs s"
  have e: "pageElements ?s1 p = Some None"
    using fold_renderPageContent_other(1) [OF assms(1)] assms(2) by simp
  have c: "pageCache ?s1 (cacheKey p (basePageWidth s) (basePageHeight s))
      = pageCache s (cacheKey p (basePageWidth s) (basePageHeight s))"
    by (rule fold_renderPageContent_other(2) [OF assms(1)])
  have b: "basePageWidth ?s1 = basePageWidth s" "basePageHeight ?s1 = basePageHeight s"
    "pdfDoc ?s1 = pdfDoc s"
    by (simp_all add: fold_renderPageContent_frame)
  have "fst (renderPage p (basePageWidth s) (basePageHeight s) ?s1)
      = fst (renderPage p (basePageWidth s) (basePageHeight s) s)"
    by (rule renderPage_fst_cong [OF c b(3)])
  then have "pageElements (renderPageContent p ?s1) p =
      Some (Some (fst (renderPage p (basePageWidth s) (basePageHeight s) s)))"
    by (simp add: renderPageContent_elements e b)
  then show ?thesis
    by (simp add: fold_renderPageContent_keeps_canvas)
qed

lemma upto_split_at: "1 \<le> p \<Longrightarrow> p \<le> n \<Longrightarrow> [1..n] = [1..p - 1] @ p # [p + 1..n]"
  by (rule upto_split3)

lemma preRenderAllPages_element:
  assumes "1 \<le> p" "p \<le> totalPages s" "pageElements s p = Some None"
  shows "pageElements (preRenderAllPages s) p =
           Some (Some (fst (renderPage p (basePageWidth s) (basePageHeight s) s)))"
proof -
  have "p \<notin> set [1..p - 1]" by simp
  from fold_renderPageContent_at [OF this assms(3), of "[p + 1..totalPages s]"]
  show ?thesis
    by (simp add: preRenderAllPages_def upto_split_at [OF assms(1,2)])
qed

lemma extractPageText_fails:
  "\<not> reads s i \<Longrightarrow> pageTexts (extractPageText i s) i = Some []"
  by (auto simp: reads_def extractPageText_def extractPageText_try_def logCall_def Let_def
        split: option.splits sum.splits)

lemma extractPageText_stores: "\<exists>t. pageTexts (extractPageText i s) i = Some t"
  by (auto simp: extractPageText_def extractPageText_try_def logCall_def Let_def
        split: option.splits sum.splits)

lemma extractPageText_other: "j \<noteq> i \<Longrightarrow> pageTexts (extractPageText i s) j = pageTexts s j"
  by (auto simp: extractPageText_def extractPageText_try_def logCall_def Let_def
        split: option.splits sum.splits)

lemma extractPageText_cong:
  "pdfDoc s' = pdfDoc s \<Longrightarrow> pageTexts (extractPageText i s') i = pageTexts (extractPageText i s) i"
  by (auto simp: extractPageText_def extractPageText_try_def logCall_def Let_def
        split: option.splits sum.splits)

lemma fold_extractPageText_texts:
  assumes "pdfDoc s = pdfDoc s0"
  shows "pageTexts (fold extractPageText ps s) i =
           (if i \<in> set ps then pageTexts (extractPageText i s0) i else pageTexts s i)"
  using assms
proof (induction ps arbitrary: s)
  case Nil
  show ?case by simp
next
  case (Cons a ps)
  have d: "pdfDoc (extractPageText a s) = pdfDoc s0"
    using Cons.prems by (simp add: extractPageText_frame)
  have here: "pageTexts (extractPageText a s) a = pageTexts (extractPageText a s0) a"
    by (rule extractPageText_cong [OF Cons.prems])
  show ?case
    using Cons.IH [OF d] here by (simp add: extractPageText_other)
qed

lemma extractAllPageTexts_page:
  assumes "1 \<le> i" "i \<le> totalPages s"
  shows "pageTexts (extractAllPageTexts s) i = pageTexts (extractPageText i s) i"
  using assms fold_extractPageText_texts [of s s "[1..totalPages s]" i]
  by (simp add: extractAllPageTexts_def)

lemma renderPageContent_texts: "pageTexts (renderPageContent p s) = pageTexts s"
proof -
  obtain cv s1 where r: "renderPage p (basePageWidth s) (basePageHeight s) s = (cv, s1)"
    by (cases "renderPage p (basePageWidth s) (basePageHeight s) s")
  have "pageTexts (snd (renderPage p (basePageWidth s) (basePageHeight s) s)) = pageTexts s"
    by (simp add: renderPage_def renderPage_try_def logCall_def Let_def
        split: option.splits sum.splits prod.splits)
  then have "pageTexts s1 = pageTexts s"
    using r by simp
  then show ?thesis
    by (simp add: renderPageContent_def r addTextLayer_def logCall_def Let_def
        split: option.splits sum.splits)
qed

lemma fold_renderPageContent_texts: "pageTexts (fold renderPageContent ps s) = pageTexts s"
  by (induction ps arbitrary: s) (simp_all add: renderPageContent_texts)

lemma renderPageContent_element_stays: "(pageElements (renderPageContent q s) p = None) = (pageElements s p = None)"
  by (simp add: renderPageContent_elements)

lemma fold_renderPageContent_element_stays:
  "(pageElements (fold renderPageContent qs s) p = None) = (pageElements s p = None)"
  by (induction qs arbitrary: s) (simp_all add: renderPageContent_element_stays)

lemma preRenderAllPages_draws_all:
  assumes "1 \<le> p" "p \<le> totalPages s" "pageElements s p \<noteq> None"
  shows "\<exists>cv. pageElements (preRenderAllPages s) p = Some (Some cv)"
proof (cases "pageElements s p")
  case None
  with assms(3) show ?thesis by simp
next
  case (Some e)
  show ?thesis
  proof (cases e)
    case None
    with Some preRenderAllPages_element [OF assms(1,2)] show ?thesis by simp
  next
    case (Some cv)
    with \<open>pageElements s p = Some e\<close> show ?thesis
      by (simp add: preRenderAllPages_def fold_renderPageContent_keeps_canvas)
  qed
qed

lemma initFlipbook_pages:
  "pageTexts (initFlipbook win i s) = pageTexts s"
  "1 \<le> p \<Longrightarrow> p \<le> totalPages s \<Longrightarrow> pageElements (initFlipbook win i s) p \<noteq> None"
proof -
  obtain r s1 where f: "firstPageAspectRatio s = (r, s1)"
    by (cases "firstPageAspectRatio s")
  have s1: "pageTexts s1 = pageTexts s" "totalPages s1 = totalPages s"
    using f by (auto simp: firstPageAspectRatio_def logCall_def Let_def split: option.splits sum.splits)
  define availableWidth where
    "availableWidth = (case viewerContainer win of Some (cw, ch) \<Rightarrow> cw | None \<Rightarrow> innerWidth win)"
  define availableHeight where
    "availableHeight = (case viewerContainer win of Some (cw, ch) \<Rightarrow> ch | None \<Rightarrow> innerHeight win) - 72"
  obtain pw ph where d: "pageDimensions availableWidth availableHeight r (isDoublePageMode s1) = (pw, ph)"
    by (cases "pageDimensions availableWidth availableHeight r (isDoublePageMode s1)")
  define s2 where "s2 = s1\<lparr>basePageWidth := pw, basePageHeight := ph,
      pageElements := (\<lambda>i. if 1 \<le> i \<and> i \<le> totalPages s1 then Some None else None),
      textLayers := Map.empty,
      pageFlip := Some \<lparr>startPage = currentPage s1 - 1, flipCalls = []\<rparr>\<rparr>"
  have i: "initFlipbook win i s = fold renderPageContent (pagesToRender i s2) s2"
    using d [unfolded availableWidth_def availableHeight_def]
    by (simp add: initFlipbook_def f s2_def renderVisiblePages_def Let_def)
  show "pageTexts (initFlipbook win i s) = pageTexts s"
    unfolding i by (simp add: fold_renderPageContent_texts s2_def s1)
  show "pageElements (initFlipbook win i s) p \<noteq> None" if "1 \<le> p" "p \<le> totalPages s"
  proof -
    have "pageElements s2 p \<noteq> None"
      using that by (simp add: s2_def s1)
    then show ?thesis
      unfolding i using fold_renderPageContent_element_stays [of "pagesToRender i s2" s2 p] by simp
  qed
qed

lemma loadPdf_complete:
  assumes "1 \<le> p" "p \<le> numPages doc"
  shows "\<exists>cv. pageElements (loadPdf (Inr doc) win i s) p = Some (Some cv)"
    "\<exists>t. pageTexts (loadPdf (Inr doc) win i s) p = Some t"
proof -
  let ?s1 = "s\<lparr>pdfDoc := Some doc, totalPages := numPages doc\<rparr>"
  let ?s2 = "extractAllPageTexts ?s1"
  let ?s3 = "initFlipbook win i ?s2"
  have l: "loadPdf (Inr doc) win i s = preRenderAllPages ?s3"
    by (simp add: loadPdf_def Let_def)
  have t2: "totalPages ?s2 = numPages doc"
    by (simp add: extractAllPageTexts_def fold_extractPageText_frame)
  have t3: "totalPages ?s3 = numPages doc"
    by (simp add: initFlipbook_engine t2)
  have e3: "pageElements ?s3 p \<noteq> None"
    using initFlipbook_pages(2) [of p ?s2 win i] assms t2 by simp
  show "\<exists>cv. pageElements (loadPdf (Inr doc) win i s) p = Some (Some cv)"
    unfolding l using preRenderAllPages_draws_all [of p ?s3] assms t3 e3 by simp
  have "pageTexts ?s2 p = pageTexts (extractPageText p ?s1) p"
    using extractAllPageTexts_page [of p ?s1] assms by simp
  then obtain t where "pageTexts ?s2 p = Some t"
    using extractPageText_stores [of p ?s1] by auto
  then show "\<exists>t. pageTexts (loadPdf (Inr doc) win i s) p = Some t"
    unfolding l by (simp add: preRenderAllPages_def fold_renderPageContent_texts initFlipbook_pages(1))
qed

section \<open>The page size\<close>

lemma floor_half: "\<lfloor>(of_int m :: rat) / 2\<rfloor> = m div 2"
  using floor_divide_of_int_eq [of m 2, where ?'a = rat] by simp

text \<open>
  C1, as amended. The page size is a pair of integers fitted into the available space
  raised to at least 300 by 400. Either the height binds, and the page is as high as that
  space (at least 400), or the width binds, and the page is as wide as that space in
  single mode (at least 300) and half as wide, rounded down, in double mode (at least
  150). The page, or the two pages side by side, are never wider than that space.
\<close>

theorem pageDimensions_fit:
  "(snd (pageDimensions aw ah ar dm) = max ah 400 \<and> 400 \<le> snd (pageDimensions aw ah ar dm)
    \<or> fst (pageDimensions aw ah ar dm) = (if dm then max aw 300 div 2 else max aw 300)
      \<and> (if dm then 150 else 300) \<le> fst (pageDimensions aw ah ar dm))
   \<and> (if dm then 2 * fst (pageDimensions aw ah ar dm) else fst (pageDimensions aw ah ar dm))
        \<le> max aw 300"
proof -
  define fitWidth where "fitWidth = (of_int (max ah 400) :: rat) * ar"
  show ?thesis
  proof (cases dm)
    case True
    show ?thesis
    proof (cases "fitWidth * 2 > of_int (max aw 300)")
      case scaled: True
      then have "fst (pageDimensions aw ah ar dm) = max aw 300 div 2"
        using \<open>dm\<close> by (simp add: pageDimensions_def Let_def fitWidth_def floor_half)
      then show ?thesis using \<open>dm\<close> by auto
    next
      case False
      then have d: "pageDimensions aw ah ar dm = (\<lfloor>fitWidth\<rfloor>, max ah 400)"
        using \<open>dm\<close> by (simp add: pageDimensions_def Let_def fitWidth_def)
      have "of_int (2 * \<lfloor>fitWidth\<rfloor>) \<le> fitWidth * 2"
        using of_int_floor_le [of fitWidth] by simp
      with False have "(of_int (2 * \<lfloor>fitWidth\<rfloor>) :: rat) \<le> of_int (max aw 300)"
        by linarith
      then have "2 * \<lfloor>fitWidth\<rfloor> \<le> max aw 300"
        by (simp only: of_int_le_iff)
      with d \<open>dm\<close> show ?thesis by simp
    qed
  next
    case single: False
    show ?thesis
    proof (cases "fitWidth > of_int (max aw 300)")
      case True
      then have "fst (pageDimensions aw ah ar dm) = max aw 300"
        using single by (simp add: pageDimensions_def Let_def fitWidth_def)
      then show ?thesis using single by auto
    next
      case False
      then have d: "pageDimensions aw ah ar dm = (\<lfloor>fitWidth\<rfloor>, max ah 400)"
        using single by (simp add: pageDimensions_def Let_def fitWidth_def)
      have "of_int \<lfloor>fitWidth\<rfloor> \<le> fitWidth"
        by (rule of_int_floor_le)
      with False have "(of_int \<lfloor>fitWidth\<rfloor> :: rat) \<le> of_int (max aw 300)"
        by linarith
      then have "\<lfloor>fitWidth\<rfloor> \<le> max aw 300"
        by (simp only: of_int_le_iff)
      with d single show ?thesis by simp
    qed
  qed
qed

theorem pageDimensions_fit_witness:
  "pageDimensions 300 400 (3 / 4) True = (150, 200)
   \<and> pageDimensions 1200 800 (3 / 4) True = (600, 800)
   \<and> pageDimensions 300 400 1 False = (300, 300)"
proof -
  have a: "pageDimensions 300 400 (3 / 4) True = (150, 200)"
    by (simp add: pageDimensions_def Let_def)
  have b: "pageDimensions 1200 800 (3 / 4) True = (600, 800)"
    by (simp add: pageDimensions_def Let_def)
  have c: "pageDimensions 300 400 1 False = (300, 300)"
    by (simp add: pageDimensions_def Let_def)
  note pageDimensions_fit [of 300 400 "3 / 4" True]
  with a b c show ?thesis by simp
qed

text \<open>
  C1, as stated, fails: with 300 by 400 available and a first page of 600 by 800 (aspect
  ratio 3/4), double mode gives pages of 150 by 200, below 300 by 400 in both directions.
\<close>

theorem pageDimensions_below_floor:
  "pageDimensions 300 400 (3 / 4) True = (150, 200)
   \<and> basePageWidth (initFlipbook small_window 0 (initial_state\<lparr>pdfDoc := Some ten_pages, totalPages := 10\<rparr>)) = 150
   \<and> basePageHeight (initFlipbook small_window 0 (initial_state\<lparr>pdfDoc := Some ten_pages, totalPages := 10\<rparr>)) = 200
   \<and> \<not> (300 \<le> fst (pageDimensions 300 400 (3 / 4) True) \<and> 400 \<le> snd (pageDimensions 300 400 (3 / 4) True))"
proof -
  have a: "pageDimensions 300 400 (3 / 4) True = (150, 200)"
    by (simp add: pageDimensions_def Let_def)
  let ?s = "initial_state\<lparr>pdfDoc := Some ten_pages, totalPages := 10\<rparr>"
  have r: "firstPageAspectRatio ?s = (3 / 4, logCall (GetPage 1) ?s)"
    by (simp add: firstPageAspectRatio_def ten_pages_def good_page_def Let_def initial_state_def)
  have m: "isDoublePageMode (logCall (GetPage 1) ?s)"
    by (simp add: logCall_def initial_state_def)
  have "basePageWidth (initFlipbook small_window 0 ?s) = 150
      \<and> basePageHeight (initFlipbook small_window 0 ?s) = 200"
    unfolding initFlipbook_def r Let_def
    by (simp add: small_window_def m a renderVisiblePages_def fold_renderPageContent_frame)
  with a show ?thesis by simp
qed

section \<open>When the render cache is cleared\<close>












section \<open>The page underneath a turning sheet\<close>

lemma renderPageContent_underneath: "underneathEl (renderPageContent p s) = underneathEl s"
proof -
  obtain cv s1 where r: "renderPage p (basePageWidth s) (basePageHeight s) s = (cv, s1)"
    by (cases "renderPage p (basePageWidth s) (basePageHeight s) s")
  have "underneathEl (snd (renderPage p (basePageWidth s) (basePageHeight s) s)) = underneathEl s"
    by (simp add: renderPage_def renderPage_try_def logCall_def Let_def
        split: option.splits sum.splits prod.splits)
  then have "underneathEl s1 = underneathEl s"
    using r by simp
  then show ?thesis
    by (simp add: renderPageContent_def r addTextLayer_def logCall_def Let_def
        split: option.splits sum.splits)
qed

lemma fold_renderPageContent_underneath: "underneathEl (fold renderPageContent ps s) = underneathEl s"
  by (induction ps arbitrary: s) (simp_all add: renderPageContent_underneath)

lemma onChangeState_read_hides:
  "underneathEl (onChangeState Read i s)
     = map_option (\<lambda>e. e\<lparr>displayStyle := DisplayNone\<rparr>) (underneathEl s)"
  by (simp add: onChangeState_def hidePageUnderneath_def split: option.splits)

lemma onChangeState_flipping_double:
  "isDoublePageMode s \<Longrightarrow>
     underneathEl (onChangeState Flipping i s) = underneathEl (showPageUnderneath i s)"
  by (simp add: onChangeState_def fold_renderPageContent_underneath Let_def)

lemma pagesToRender_cong:
  "isDoublePageMode s' = isDoublePageMode s \<Longrightarrow> totalPages s' = totalPages s
     \<Longrightarrow> pagesToRender i s' = pagesToRender i s"
  by (simp add: pagesToRender_def)

lemma drawn_session_facts:
  "isDoublePageMode drawn_session"
  "totalPages drawn_session = 10"
  "underneathEl drawn_session = None"
  "pageElements drawn_session 9 = Some (Some (fst (renderPage 9 400 560 ten_page_session)))"
  "content (fst (renderPage 9 400 560 ten_page_session)) = PageBitmap 9"
proof -
  note f = ten_page_session_facts
  show "isDoublePageMode drawn_session" "totalPages drawn_session = 10"
    "underneathEl drawn_session = None"
    by (simp_all add: drawn_session_def preRenderAllPages_def fold_renderPageContent_frame
        fold_renderPageContent_underneath ten_page_session_def initial_state_def)
  have e: "pageElements ten_page_session 9 = Some None"
    by (simp add: ten_page_session_def)
  have "1 \<le> (9 :: int)" "9 \<le> totalPages ten_page_session"
    by (simp_all add: f)
  from preRenderAllPages_element [OF this e]
  show "pageElements drawn_session 9 = Some (Some (fst (renderPage 9 400 560 ten_page_session)))"
    by (simp add: drawn_session_def f)
  have d: "draws ten_page_session 9"
    by (simp add: draws_def f ten_pages_def good_page_def)
  from renderPage_miss_draws [OF f(1) d, of 400 560]
  show "content (fst (renderPage 9 400 560 ten_page_session)) = PageBitmap 9"
    by auto
qed

text \<open>
  C3. The claim holds for the cover and the first spread only. In the double-page session
  of ten pages the engine rests on the spread of pages 4 and 5 with page-flip index 3
  (the code's own \<open>pagesToRender\<close> draws pages 4 and 5 for it). The pairing rule
  gives the spreads [1], [2,3], [4,5], [6,7], [8,9], [10], so the right-hand page of the
  next spread is 7; \<open>nextRightPageNum\<close> gives 9, and the overlay shown when the flip
  starts holds the canvas of page 9. Of the indices 0 to 9 only 0 and 1 give the page
  of the pairing rule.
\<close>

theorem page_underneath_wrong_spread:
  "isDoublePageMode drawn_session \<and> totalPages drawn_session = 10
   \<and> spec_spreads 10 = [[1], [2, 3], [4, 5], [6, 7], [8, 9], [10]]
   \<and> take 2 (pagesToRender 3 drawn_session) = [4, 5]
   \<and> spec_next_right_page 10 3 = Some 7
   \<and> nextRightPageNum 3 = 9
   \<and> (\<exists>cv. underneathEl (onChangeState Flipping 3 drawn_session)
              = Some \<lparr>displayStyle = DisplayBlock, preview = Some cv\<rparr>
            \<and> content cv = PageBitmap 9)
   \<and> filter (\<lambda>i. spec_next_right_page 10 i = Some (nextRightPageNum i)) [0..9] = [0, 1]"
proof -
  note d = drawn_session_facts
  have a: "spec_spreads 10 = [[1], [2, 3], [4, 5], [6, 7], [8, 9], [10]]"
    by code_simp
  have "pagesToRender 3 ten_page_session = [4, 5, 2, 3, 6, 7, 8]"
    by code_simp
  moreover have "pagesToRender 3 drawn_session = pagesToRender 3 ten_page_session"
    by (rule pagesToRender_cong)
       (simp_all add: drawn_session_def preRenderAllPages_def fold_renderPageContent_frame)
  ultimately have b: "take 2 (pagesToRender 3 drawn_session) = [4, 5]"
    by simp
  have c: "spec_next_right_page 10 3 = Some 7"
    by code_simp
  have n: "nextRightPageNum 3 = 9"
    by (simp add: nextRightPageNum_def)
  have "underneathEl (showPageUnderneath 3 drawn_session)
      = Some \<lparr>displayStyle = DisplayBlock, preview = Some (fst (renderPage 9 400 560 ten_page_session))\<rparr>"
    by (simp add: showPageUnderneath_def n d Let_def)
  then have e: "\<exists>cv. underneathEl (onChangeState Flipping 3 drawn_session)
              = Some \<lparr>displayStyle = DisplayBlock, preview = Some cv\<rparr>
            \<and> content cv = PageBitmap 9"
    using d(5) by (simp add: onChangeState_flipping_double [OF d(1)])
  have g: "filter (\<lambda>i. spec_next_right_page 10 i = Some (nextRightPageNum i)) [0..9] = [0, 1]"
    by code_simp
  from d(1,2) a b c n e g show ?thesis by blast
qed

section \<open>The page named by the location hash\<close>




section \<open>Navigation: requests outside the document\<close>

text \<open>
  C5. For every \<open>n\<close> outside \<open>[1, totalPages]\<close>, \<^verbatim>\<open>goToPage(n)\<close> raises nothing, asks
  the engine for no flip and leaves the current page, and every other part of the state,
  as it was: the state after the call is the state before.
\<close>

theorem goToPage_out_of_range:
  assumes "n < 1 \<or> n > totalPages s"
  shows "goToPage n s = s"
  using assms by (auto simp: goToPage_def split: option.splits)

theorem goToPage_out_of_range_witness:
  "goToPage 11 ten_page_session = ten_page_session
   \<and> goToPage 0 ten_page_session = ten_page_session
   \<and> totalPages ten_page_session = 10
   \<and> pageFlip ten_page_session \<noteq> None"
proof -
  have t: "totalPages ten_page_session = 10"
    by (simp add: ten_page_session_def)
  have hi: "goToPage 11 ten_page_session = ten_page_session"
    using goToPage_out_of_range [of 11 ten_page_session] t by simp
  have lo: "goToPage 0 ten_page_session = ten_page_session"
    using goToPage_out_of_range [of 0 ten_page_session] by simp
  have pf: "pageFlip ten_page_session \<noteq> None"
    by (simp add: ten_page_session_def)
  from hi lo t pf show ?thesis by simp
qed

section \<open>Mobile devices show single pages\<close>

text \<open>
  C6. The invariant (mobile device class implies single-page layout) holds after every
  operation: \<^verbatim>\<open>checkMobileMode\<close> establishes it whatever the state was, setting the
  device class from the window width; \<^verbatim>\<open>toggleViewMode\<close> on a mobile device in single
  mode changes nothing but shows exactly one toast; every operation preserves the
  invariant; and so it holds after any sequence of operations from the initial state.
\<close>

theorem mobile_forces_single:
  "mobile_single (snd (checkMobileMode w s))
   \<and> isMobile (snd (checkMobileMode w s)) = (w \<le> MOBILE_BREAKPOINT)
   \<and> (isMobile s \<and> \<not> isDoublePageMode s \<longrightarrow>
        toggleViewMode s = s\<lparr>toasts := toasts s @ [MobileDoubleUnsupported]\<rparr>)
   \<and> (mobile_single s \<longrightarrow> mobile_single (perform op s))
   \<and> mobile_single (run ops initial_state)"
proof -
  have a: "mobile_single (snd (checkMobileMode w s))"
    by (rule checkMobileMode_single)
  have b: "isMobile (snd (checkMobileMode w s)) = (w \<le> MOBILE_BREAKPOINT)"
    by (simp add: checkMobileMode_def Let_def)
  have c: "isMobile s \<and> \<not> isDoublePageMode s \<longrightarrow>
        toggleViewMode s = s\<lparr>toasts := toasts s @ [MobileDoubleUnsupported]\<rparr>"
    by (simp add: toggleViewMode_def showToast_def)
  have d: "mobile_single s \<longrightarrow> mobile_single (perform op s)"
    by (simp add: perform_single)
  have "mobile_single initial_state"
    by (simp add: mobile_single_def initial_state_def)
  then have e: "mobile_single (run ops initial_state)"
    by (rule run_single)
  from a b c d e show ?thesis by blast
qed

theorem mobile_forces_single_witness:
  "isMobile (snd (checkMobileMode 400 initial_state))
   \<and> \<not> isDoublePageMode (snd (checkMobileMode 400 initial_state))
   \<and> toggleViewMode (snd (checkMobileMode 400 initial_state)) =
       (snd (checkMobileMode 400 initial_state))\<lparr>toasts := [MobileDoubleUnsupported]\<rparr>
   \<and> mobile_single (snd (checkMobileMode 400 initial_state))
   \<and> mobile_single (perform ToggleViewMode (snd (checkMobileMode 400 initial_state)))
   \<and> mobile_single (run [CheckMobileMode 400, ToggleViewMode, ToggleViewMode] initial_state)"
proof -
  let ?m = "snd (checkMobileMode 400 initial_state)"
  note first = mobile_forces_single [of 400 initial_state ToggleViewMode
      "[CheckMobileMode 400, ToggleViewMode, ToggleViewMode]"]
  note second = mobile_forces_single [of 400 ?m ToggleViewMode "[]"]
  have m: "isMobile ?m" "\<not> isDoublePageMode ?m" "toasts ?m = []"
    by (simp_all add: checkMobileMode_def initial_state_def MOBILE_BREAKPOINT_def Let_def)
  have inv: "mobile_single ?m"
    using first by blast
  have toggle: "toggleViewMode ?m = ?m\<lparr>toasts := [MobileDoubleUnsupported]\<rparr>"
    using second m by simp
  have after: "mobile_single (perform ToggleViewMode ?m)"
    using second inv by blast
  have all: "mobile_single (run [CheckMobileMode 400, ToggleViewMode, ToggleViewMode] initial_state)"
    using first by blast
  from m inv toggle after all show ?thesis by blast
qed

section \<open>Rendering the same page twice\<close>

text \<open>
  C7, as amended. For every page \<open>p\<close> and target size \<open>(w, h)\<close> whose key is
  already cached or whose page the decoder hands out and draws, a second call of
  \<^verbatim>\<open>renderPage(p, w, h)\<close> with nothing in between returns the artifact of the first call
  and leaves the state as it is, the record of decoder calls included: the decoder is
  not asked again. The entry is stored under the exact key: the first call creates or
  changes no entry for any other page or size.
\<close>

theorem renderPage_twice:
  assumes "pageCache s (cacheKey p w h) \<noteq> None \<or> draws s p"
    and "renderPage p w h s = (cv, s1)"
  shows "renderPage p w h s1 = (cv, s1)
     \<and> decoderLog (snd (renderPage p w h s1)) = decoderLog s1
     \<and> pageCache s1 (cacheKey p w h) = Some cv
     \<and> ((p', w', h') \<noteq> (p, w, h) \<longrightarrow>
          pageCache s1 (cacheKey p' w' h') = pageCache s (cacheKey p' w' h'))"
proof -
  have stored: "pageCache s1 (cacheKey p w h) = Some cv"
  proof (cases "pageCache s (cacheKey p w h)")
    case (Some c)
    with assms(2) show ?thesis by (simp add: renderPage_hit)
  next
    case None
    with assms(1) have "draws s p" by simp
    from renderPage_miss_draws [OF None this] assms(2) show ?thesis by auto
  qed
  then have again: "renderPage p w h s1 = (cv, s1)"
    by (rule renderPage_hit)
  have other: "(p', w', h') \<noteq> (p, w, h) \<longrightarrow>
          pageCache s1 (cacheKey p' w' h') = pageCache s (cacheKey p' w' h')"
    using renderPage_other_key [of p' w' h' p w h s] assms(2) by simp
  from stored again other show ?thesis by simp
qed

theorem renderPage_twice_witness:
  "draws ten_page_session 3
   \<and> renderPage 3 400 560 (snd (renderPage 3 400 560 ten_page_session))
       = renderPage 3 400 560 ten_page_session
   \<and> content (fst (renderPage 3 400 560 ten_page_session)) = PageBitmap 3
   \<and> decoderLog (snd (renderPage 3 400 560 (snd (renderPage 3 400 560 ten_page_session))))
       = [GetPage 3, Render 3]
   \<and> pageCache (snd (renderPage 3 400 560 ten_page_session)) (cacheKey 3 400 560)
       = Some (fst (renderPage 3 400 560 ten_page_session))
   \<and> pageCache (snd (renderPage 3 400 560 ten_page_session)) (cacheKey 3 200 280) = None"
proof -
  have d: "draws ten_page_session 3"
    by (simp add: draws_def ten_page_session_def ten_pages_def good_page_def)
  have miss: "pageCache ten_page_session k = None" for k
    by (simp add: ten_page_session_def initial_state_def)
  have log0: "decoderLog ten_page_session = []"
    by (simp add: ten_page_session_def initial_state_def)
  obtain cv s1 where r: "renderPage 3 400 560 ten_page_session = (cv, s1)"
    by (cases "renderPage 3 400 560 ten_page_session")
  from renderPage_miss_draws [OF miss d, of 400 560] r
  have c: "content cv = PageBitmap 3" and l: "decoderLog s1 = [GetPage 3, Render 3]"
    by (auto simp: logCall_def log0)
  have "(3, 200, 280) \<noteq> (3 :: int, 400 :: int, 560 :: int)"
    by simp
  with renderPage_twice [of ten_page_session 3 400 560 cv s1 3 200 280] d r miss l c
  show ?thesis by simp
qed

text \<open>
  C7, as stated, fails for a valid page whose drawing fails: page 4 of the ten-page
  document. The placeholder is not cached, and the second call asks the decoder again.
\<close>

theorem renderPage_twice_failing_page:
  "1 \<le> (4 :: int) \<and> 4 \<le> totalPages ten_page_session
   \<and> decoderLog (snd (renderPage 4 400 560 ten_page_session)) = [GetPage 4, Render 4]
   \<and> decoderLog (snd (renderPage 4 400 560 (snd (renderPage 4 400 560 ten_page_session))))
       = [GetPage 4, Render 4, GetPage 4, Render 4]"
proof -
  note f = ten_page_session_facts
  let ?s1 = "logCall (Render 4) (logCall (GetPage 4) ten_page_session)"
  have first: "renderPage 4 400 560 ten_page_session = (createErrorPage 400 560, ?s1)"
    by (rule renderPage_rejects [OF f(1) f(2) f(5) f(6)])
  have second: "renderPage 4 400 560 ?s1
      = (createErrorPage 400 560, logCall (Render 4) (logCall (GetPage 4) ?s1))"
    by (rule renderPage_rejects [OF _ _ f(5) f(6)]) (simp_all add: logCall_frame f)
  show ?thesis
    unfolding first snd_conv second by (simp add: logCall_frame f)
qed

section \<open>Cyclic navigation of the search results\<close>











section \<open>A failing page does not stop the others\<close>

text \<open>
  C9. Failures of single pages are caught where they happen. When the key is not cached
  and drawing page \<open>p\<close> fails, \<^verbatim>\<open>renderPage\<close> returns the placeholder of the target
  size and throws nothing. When the text of page \<open>i\<close> cannot be read, the empty text is
  stored for it. \<^verbatim>\<open>extractAllPageTexts\<close> stores for every page from 1 to \<open>totalPages\<close>
  what the extraction of that page alone stores, and \<^verbatim>\<open>preRenderAllPages\<close> gives every
  page from 1 to \<open>totalPages\<close> that has an element the canvas that rendering that page
  alone returns (the placeholder of the base size for a page that fails), whatever the
  other pages do. After \<^verbatim>\<open>loadPdf\<close> of any document every page has a text and a canvas.
\<close>

theorem page_failures_are_isolated:
  "(pageCache s (cacheKey p w h) = None \<and> \<not> draws s p \<longrightarrow>
        fst (renderPage p w h s) = createErrorPage w h
      \<and> content (fst (renderPage p w h s)) = ErrorLabel
      \<and> canvasWidth (fst (renderPage p w h s)) = of_int w
      \<and> canvasHeight (fst (renderPage p w h s)) = of_int h)
   \<and> (\<not> reads s i \<longrightarrow> pageTexts (extractPageText i s) i = Some [])
   \<and> (1 \<le> i \<and> i \<le> totalPages s \<longrightarrow>
        pageTexts (extractAllPageTexts s) i = pageTexts (extractPageText i s) i
      \<and> (\<exists>t. pageTexts (extractAllPageTexts s) i = Some t)
      \<and> (\<not> reads s i \<longrightarrow> pageTexts (extractAllPageTexts s) i = Some []))
   \<and> (1 \<le> q \<and> q \<le> totalPages s \<and> pageElements s q \<noteq> None \<longrightarrow>
        (\<exists>cv. pageElements (preRenderAllPages s) q = Some (Some cv)))
   \<and> (1 \<le> q \<and> q \<le> totalPages s \<and> pageElements s q = Some None \<longrightarrow>
        pageElements (preRenderAllPages s) q
          = Some (Some (fst (renderPage q (basePageWidth s) (basePageHeight s) s)))
      \<and> (pageCache s (cacheKey q (basePageWidth s) (basePageHeight s)) = None \<and> \<not> draws s q \<longrightarrow>
           pageElements (preRenderAllPages s) q
             = Some (Some (createErrorPage (basePageWidth s) (basePageHeight s)))))
   \<and> (1 \<le> q \<and> q \<le> numPages doc \<longrightarrow>
        (\<exists>cv. pageElements (loadPdf (Inr doc) win k s) q = Some (Some cv))
      \<and> (\<exists>t. pageTexts (loadPdf (Inr doc) win k s) q = Some t))"
proof -
  have a: "fst (renderPage p w h s) = createErrorPage w h
      \<and> content (fst (renderPage p w h s)) = ErrorLabel
      \<and> canvasWidth (fst (renderPage p w h s)) = of_int w
      \<and> canvasHeight (fst (renderPage p w h s)) = of_int h"
    if "pageCache s (cacheKey p w h) = None" "\<not> draws s p"
    using renderPage_miss_fails(1) [OF that] by (simp add: createErrorPage_def)
  have b: "pageTexts (extractPageText i s) i = Some []" if "\<not> reads s i"
    using that by (rule extractPageText_fails)
  have c: "pageTexts (extractAllPageTexts s) i = pageTexts (extractPageText i s) i
      \<and> (\<exists>t. pageTexts (extractAllPageTexts s) i = Some t)
      \<and> (\<not> reads s i \<longrightarrow> pageTexts (extractAllPageTexts s) i = Some [])"
    if "1 \<le> i" "i \<le> totalPages s"
    using extractAllPageTexts_page [OF that] extractPageText_stores [of i s] b by simp
  have d: "\<exists>cv. pageElements (preRenderAllPages s) q = Some (Some cv)"
    if "1 \<le> q" "q \<le> totalPages s" "pageElements s q \<noteq> None"
    using that by (rule preRenderAllPages_draws_all)
  have e: "pageElements (preRenderAllPages s) q
          = Some (Some (fst (renderPage q (basePageWidth s) (basePageHeight s) s)))
      \<and> (pageCache s (cacheKey q (basePageWidth s) (basePageHeight s)) = None \<and> \<not> draws s q \<longrightarrow>
           pageElements (preRenderAllPages s) q
             = Some (Some (createErrorPage (basePageWidth s) (basePageHeight s))))"
    if "1 \<le> q" "q \<le> totalPages s" "pageElements s q = Some None"
    using preRenderAllPages_element [OF that] renderPage_miss_fails(1) [of s q "basePageWidth s" "basePageHeight s"]
    by simp
  have f: "(\<exists>cv. pageElements (loadPdf (Inr doc) win k s) q = Some (Some cv))
      \<and> (\<exists>t. pageTexts (loadPdf (Inr doc) win k s) q = Some t)"
    if "1 \<le> q" "q \<le> numPages doc"
    using loadPdf_complete [OF that] by blast
  from a b c d e f show ?thesis by blast
qed

theorem page_failures_are_isolated_witness:
  "\<not> draws ten_page_session 4 \<and> \<not> reads ten_page_session 4
   \<and> fst (renderPage 4 400 560 ten_page_session) = createErrorPage 400 560
   \<and> pageTexts (extractAllPageTexts ten_page_session) 4 = Some []
   \<and> pageElements (preRenderAllPages ten_page_session) 4 = Some (Some (createErrorPage 400 560))
   \<and> (\<exists>cv. pageElements (preRenderAllPages ten_page_session) 5 = Some (Some cv))
   \<and> (\<exists>cv. pageElements (loadPdf (Inr ten_pages) desktop_window 0 initial_state) 10 = Some (Some cv))
   \<and> (\<exists>t. pageTexts (loadPdf (Inr ten_pages) desktop_window 0 initial_state) 10 = Some t)"
proof -
  note f = ten_page_session_facts
  have nd: "\<not> draws ten_page_session 4"
    by (simp add: draws_def f)
  have nr: "\<not> reads ten_page_session 4"
    by (simp add: reads_def f)
  have e4: "pageElements ten_page_session 4 = Some None" and e5: "pageElements ten_page_session 5 \<noteq> None"
    by (simp_all add: ten_page_session_def)
  note w4 = page_failures_are_isolated [of ten_page_session 4 400 560 4 4 ten_pages desktop_window 0]
  note w5 = page_failures_are_isolated [of ten_page_session 4 400 560 4 5 ten_pages desktop_window 0]
  note wl = page_failures_are_isolated [of initial_state 4 400 560 4 10 ten_pages desktop_window 0]
  have r4: "1 \<le> (4 :: int) \<and> 4 \<le> totalPages ten_page_session"
    and r5: "1 \<le> (5 :: int) \<and> 5 \<le> totalPages ten_page_session \<and> pageElements ten_page_session 5 \<noteq> None"
    and p4: "1 \<le> (4 :: int) \<and> 4 \<le> totalPages ten_page_session \<and> pageElements ten_page_session 4 = Some None"
    using e4 e5 by (simp_all add: f)
  have m4: "pageCache ten_page_session (cacheKey 4 400 560) = None \<and> \<not> draws ten_page_session 4"
    and mb: "pageCache ten_page_session
        (cacheKey 4 (basePageWidth ten_page_session) (basePageHeight ten_page_session)) = None
      \<and> \<not> draws ten_page_session 4"
    using nd f(1) by simp_all
  have a: "fst (renderPage 4 400 560 ten_page_session) = createErrorPage 400 560"
    using w4 m4 by blast
  have b: "pageTexts (extractAllPageTexts ten_page_session) 4 = Some []"
    using w4 nr r4 by blast
  have "pageElements (preRenderAllPages ten_page_session) 4
      = Some (Some (createErrorPage (basePageWidth ten_page_session) (basePageHeight ten_page_session)))"
    using w4 p4 mb by blast
  then have c: "pageElements (preRenderAllPages ten_page_session) 4 = Some (Some (createErrorPage 400 560))"
    by (simp add: f)
  have d: "\<exists>cv. pageElements (preRenderAllPages ten_page_session) 5 = Some (Some cv)"
    using w5 r5 by blast
  have n: "1 \<le> (10 :: int) \<and> 10 \<le> numPages ten_pages"
    by (simp add: ten_pages_def)
  have l: "(\<exists>cv. pageElements (loadPdf (Inr ten_pages) desktop_window 0 initial_state) 10 = Some (Some cv))
      \<and> (\<exists>t. pageTexts (loadPdf (Inr ten_pages) desktop_window 0 initial_state) 10 = Some t)"
    using wl n by blast
  from nd nr a b c d l show ?thesis by blast
qed

section \<open>Placeholders are not cached\<close>

text \<open>
  C10. When the key is not cached and drawing the page fails (the decoder does not hand
  the page out, or its drawing is rejected), \<^verbatim>\<open>renderPage\<close> returns the placeholder and
  writes nothing to the cache, so the key is still absent and the page still fails.
  When the drawing is rejected the decoder was asked for the page and for the drawing,
  and a second call with the same page and size asks it for both again and returns the
  placeholder again.
\<close>

theorem renderPage_placeholder_not_cached:
  assumes "pageCache s (cacheKey p w h) = None"
  shows "(\<not> draws s p \<longrightarrow>
            fst (renderPage p w h s) = createErrorPage w h
          \<and> pageCache (snd (renderPage p w h s)) = pageCache s
          \<and> pageCache (snd (renderPage p w h s)) (cacheKey p w h) = None
          \<and> \<not> draws (snd (renderPage p w h s)) p)
     \<and> (pdfDoc s = Some doc \<and> getPage doc p = Inr pg \<and> renderOutcome pg = Some e \<longrightarrow>
            renderPage p w h s = (createErrorPage w h, logCall (Render p) (logCall (GetPage p) s))
          \<and> renderPage p w h (snd (renderPage p w h s)) =
              (createErrorPage w h,
               logCall (Render p) (logCall (GetPage p) (logCall (Render p) (logCall (GetPage p) s))))
          \<and> decoderLog (snd (renderPage p w h (snd (renderPage p w h s)))) =
              decoderLog s @ [GetPage p, Render p, GetPage p, Render p])"
proof -
  have a: "fst (renderPage p w h s) = createErrorPage w h
          \<and> pageCache (snd (renderPage p w h s)) = pageCache s
          \<and> pageCache (snd (renderPage p w h s)) (cacheKey p w h) = None
          \<and> \<not> draws (snd (renderPage p w h s)) p" if nd: "\<not> draws s p"
    using renderPage_miss_fails [OF assms nd] assms nd by (simp add: renderPage_draws)
  have b: "renderPage p w h s = (createErrorPage w h, logCall (Render p) (logCall (GetPage p) s))
          \<and> renderPage p w h (snd (renderPage p w h s)) =
              (createErrorPage w h,
               logCall (Render p) (logCall (GetPage p) (logCall (Render p) (logCall (GetPage p) s))))
          \<and> decoderLog (snd (renderPage p w h (snd (renderPage p w h s)))) =
              decoderLog s @ [GetPage p, Render p, GetPage p, Render p]"
    if d: "pdfDoc s = Some doc" and g: "getPage doc p = Inr pg" and r: "renderOutcome pg = Some e"
  proof -
    let ?s1 = "logCall (Render p) (logCall (GetPage p) s)"
    have first: "renderPage p w h s = (createErrorPage w h, ?s1)"
      by (rule renderPage_rejects [OF assms d g r])
    have second: "renderPage p w h ?s1 =
        (createErrorPage w h, logCall (Render p) (logCall (GetPage p) ?s1))"
      by (rule renderPage_rejects [OF _ _ g r]) (simp_all add: logCall_frame assms d)
    show ?thesis
      unfolding first snd_conv second by (simp add: logCall_frame)
  qed
  from a b show ?thesis by blast
qed

theorem renderPage_placeholder_not_cached_witness:
  "pageCache ten_page_session (cacheKey 4 400 560) = None
   \<and> \<not> draws ten_page_session 4
   \<and> fst (renderPage 4 400 560 ten_page_session) = createErrorPage 400 560
   \<and> pageCache (snd (renderPage 4 400 560 ten_page_session)) (cacheKey 4 400 560) = None
   \<and> decoderLog (snd (renderPage 4 400 560 (snd (renderPage 4 400 560 ten_page_session))))
       = [GetPage 4, Render 4, GetPage 4, Render 4]"
proof -
  note f = ten_page_session_facts
  have nd: "\<not> draws ten_page_session 4"
    by (simp add: draws_def f)
  have ok: "pdfDoc ten_page_session = Some ten_pages \<and> getPage ten_pages 4 = Inr bad_page
      \<and> renderOutcome bad_page = Some RenderError"
    by (simp add: f)
  note w = renderPage_placeholder_not_cached [OF f(1), of 4 400 560 ten_pages bad_page RenderError]
  have a: "fst (renderPage 4 400 560 ten_page_session) = createErrorPage 400 560"
    "pageCache (snd (renderPage 4 400 560 ten_page_session)) (cacheKey 4 400 560) = None"
    using w nd by blast+
  have "decoderLog (snd (renderPage 4 400 560 (snd (renderPage 4 400 560 ten_page_session))))
      = decoderLog ten_page_session @ [GetPage 4, Render 4, GetPage 4, Render 4]"
    using w ok by blast
  then have b: "decoderLog (snd (renderPage 4 400 560 (snd (renderPage 4 400 560 ten_page_session))))
      = [GetPage 4, Render 4, GetPage 4, Render 4]"
    by (simp only: f(4) append_Nil)
  from f(1) [of "cacheKey 4 400 560"] nd a b show ?thesis by blast
qed

end
